theory Spec2Isabelle
  imports Main "HOL-Library.Sublist" "HOL-Library.AList"
begin

text \<open>
  A model of \<open>preprocess.py\<close>: the Text Sanitizer (\<open>clean_unicode\<close>), the Response Parser
  (\<open>extract_json_from_text\<close>), the Fallback Metadata Generator
  (\<open>get_fallback_metadata\<close>), the Metadata Extractor (\<open>extract_metadata\<close>), the Retry
  Controller (\<open>extract_metadata_with_retry\<close>) and the loop of the Batch Processor
  (\<open>process_posts\<close>). Exceptions are values of a sum type, \<open>Inl\<close> being a raised
  exception. The completion capability, \<open>json.loads\<close>, the Unicode part of \<open>str.lower\<close>
  and \<open>str()\<close> on values that are not strings are parameters of the functions that call
  them. \<open>print\<close> is modelled as far as it can raise; what it writes, and the file input
  and output, are not modelled.
\<close>

section \<open>Python values\<close>

text \<open>
  A Python \<open>str\<close> is a sequence of Unicode code points, lone surrogates included, so it
  is modelled as a list of code point numbers. \<open>py\<close> turns an ASCII literal of the source
  into such a list.
\<close>

type_synonym pystr = "nat list"

definition py :: "string \<Rightarrow> pystr" where
  "py s = map of_char s"

text \<open>
  The exceptions the code can meet. \<open>msg\<close> is what \<open>str(e)\<close> returns, the text that the
  Retry Controller inspects and that the handlers print. It is abbreviated in one place,
  where no code reads it: the \<open>UnicodeEncodeError\<close> of \<open>text.encode\<close> in the Text
  Sanitizer, which is caught there. Only
  subclasses of \<open>Exception\<close> are modelled: they are what \<open>except Exception\<close> catches.
  \<open>CapabilityError\<close> stands for whatever the completion client raises.
\<close>

datatype exn_kind =
  UnicodeEncodeError | KeyError | TypeError | AttributeError | ValueError
  | JSONDecodeError | RecursionError | CapabilityError

datatype exn = Exn (kind: exn_kind) (msg: pystr)

text \<open>
  What \<open>json.load\<close> and \<open>json.loads\<close> build: \<open>None\<close>, \<open>bool\<close>, \<open>int\<close>, \<open>float\<close> (kept as
  its lexeme), \<open>str\<close>, \<open>list\<close> and \<open>dict\<close>. A dict is an association list in insertion
  order.
\<close>

datatype json =
  JNull | JBool bool | JInt int | JFloat pystr | JStr pystr
  | JArr "json list" | JObj "(pystr \<times> json) list"

text \<open>
  \<open>{**d, **m}\<close> and \<open>dict(pairs)\<close>: the pairs of \<open>m\<close> are stored one after the other; a key
  that is already there keeps its place and takes the new value, a new key goes to the
  end.
\<close>

definition dict_merge :: "(pystr \<times> json) list \<Rightarrow> (pystr \<times> json) list \<Rightarrow> (pystr \<times> json) list" where
  "dict_merge d m = foldl (\<lambda>a (k, v). AList.update k v a) d m"

section \<open>String operations of the standard library\<close>

text \<open>\<open>str.isspace\<close> on one code point; the whitespace class of a \<open>str\<close> pattern matches the same set.\<close>

definition isspace :: "nat \<Rightarrow> bool" where
  "isspace c = ((9 \<le> c \<and> c \<le> 13) \<or> (28 \<le> c \<and> c \<le> 32) \<or> c = 133 \<or> c = 160
     \<or> c = 5760 \<or> (8192 \<le> c \<and> c \<le> 8202) \<or> c = 8232 \<or> c = 8233 \<or> c = 8239
     \<or> c = 8287 \<or> c = 12288)"

definition strip :: "pystr \<Rightarrow> pystr" where
  "strip s = rev (dropWhile isspace (rev (dropWhile isspace s)))"

text \<open>\<open>s.split(d)\<close> for a one-character separator \<open>d\<close>.\<close>

fun split_on :: "nat \<Rightarrow> pystr \<Rightarrow> pystr list" where
  "split_on d [] = [[]]"
| "split_on d (c # s) =
     (if c = d then [] # split_on d s
      else (case split_on d s of [] \<Rightarrow> [[c]] | x # xs \<Rightarrow> (c # x) # xs))"

text \<open>
  \<open>str.lower\<close>. On a string of ASCII characters it maps \<open>A\<close>..\<open>Z\<close> to \<open>a\<close>..\<open>z\<close>. Elsewhere it
  follows the Unicode case tables, which are not part of the repository: they are the
  parameter \<open>L\<close> of every function that lowercases.
\<close>

definition ascii_lower :: "nat \<Rightarrow> nat" where
  "ascii_lower c = (if 65 \<le> c \<and> c \<le> 90 then c + 32 else c)"

definition lower :: "(pystr \<Rightarrow> pystr) \<Rightarrow> pystr \<Rightarrow> pystr" where
  "lower L s = (if list_all (\<lambda>c. c < 128) s then map ascii_lower s else L s)"

text \<open>\<open>w in s\<close> on strings is \<^const>\<open>sublist\<close>: \<open>w\<close> occurs in \<open>s\<close> as a contiguous run.\<close>

text \<open>\<open>str(n)\<close> of an integer, as an f-string formats it.\<close>

fun str_nat :: "nat \<Rightarrow> pystr" where
  "str_nat n = (if n < 10 then [48 + n] else str_nat (n div 10) @ [48 + n mod 10])"

declare str_nat.simps [simp del]

definition str_int :: "int \<Rightarrow> pystr" where
  "str_int i = (if i < 0 then 45 # str_nat (nat (- i)) else str_nat (nat i))"

section \<open>Text Sanitizer\<close>

definition is_surrogate :: "nat \<Rightarrow> bool" where
  "is_surrogate c = (55296 \<le> c \<and> c \<le> 57343)"

text \<open>\<open>text.encode('utf-8', 'strict')\<close>: the bytes, or \<open>UnicodeEncodeError\<close> at a surrogate.\<close>

definition utf8_char :: "nat \<Rightarrow> nat list" where
  "utf8_char c =
     (if c < 128 then [c]
      else if c < 2048 then [192 + c div 64, 128 + c mod 64]
      else if c < 65536 then [224 + c div 4096, 128 + (c div 64) mod 64, 128 + c mod 64]
      else [240 + c div 262144, 128 + (c div 4096) mod 64, 128 + (c div 64) mod 64,
            128 + c mod 64])"

fun encode_utf8_strict :: "pystr \<Rightarrow> exn + nat list" where
  "encode_utf8_strict [] = Inr []"
| "encode_utf8_strict (c # s) =
     (if is_surrogate c
      then Inl (Exn UnicodeEncodeError (py ''surrogates not allowed''))
      else (case encode_utf8_strict s of
              Inl e \<Rightarrow> Inl e
            | Inr bs \<Rightarrow> Inr (utf8_char c @ bs)))"

text \<open>The \<open>re.sub\<close> of line 57: every code point of the surrogate range becomes U+FFFD.\<close>

definition sub_surrogates :: "pystr \<Rightarrow> pystr" where
  "sub_surrogates s = map (\<lambda>c. if is_surrogate c then 65533 else c) s"

text \<open>
  \<open>text.encode('utf-8', 'replace').decode('utf-8')\<close>: the encoder writes \<open>?\<close> for what it
  cannot encode, and decoding gives back the rest unchanged.
\<close>

definition encode_replace_decode :: "pystr \<Rightarrow> pystr" where
  "encode_replace_decode s = map (\<lambda>c. if is_surrogate c then 63 else c) s"

text \<open>
  \<open>clean_unicode\<close>, lines 44 to 66. \<open>clean_unicode_str\<close> is the part after the
  \<open>isinstance\<close> test: the \<open>try\<close> with its two handlers. \<open>S\<close> is \<open>str()\<close> on values that
  are not strings.
\<close>

definition clean_unicode_str :: "pystr \<Rightarrow> exn + pystr" where
  "clean_unicode_str text =
     (case encode_utf8_strict text of
        Inr _ \<Rightarrow> Inr text
      | Inl e \<Rightarrow>
          if kind e = UnicodeEncodeError then Inr (sub_surrogates text)
          else Inr (encode_replace_decode text))"

definition clean_unicode :: "(json \<Rightarrow> pystr) \<Rightarrow> json \<Rightarrow> exn + pystr" where
  "clean_unicode S v = (case v of JStr text \<Rightarrow> clean_unicode_str text | _ \<Rightarrow> Inr (S v))"

section \<open>Printing\<close>

text \<open>
  \<open>print\<close> writes to the standard output, a text stream. The model takes the stream that
  CPython opens in a UTF-8 locale: the encoding UTF-8 with the error handler \<open>strict\<close>.
  This stream refuses a text exactly when it holds a surrogate code point, and \<open>print\<close>
  then raises \<open>UnicodeEncodeError\<close>. The message names the first run of surrogates:
  \<^verbatim>\<open>'utf-8' codec can't encode character '\ud83d' in position 25: surrogates not allowed\<close>
  for a single one, and \<open>characters in position 51-53\<close> for a longer run.
\<close>

definition hex_digit :: "nat \<Rightarrow> nat" where
  "hex_digit d = (if d < 10 then 48 + d else 87 + d)"

definition hex4_of :: "nat \<Rightarrow> pystr" where
  "hex4_of c = [hex_digit ((c div 4096) mod 16), hex_digit ((c div 256) mod 16),
                hex_digit ((c div 16) mod 16), hex_digit (c mod 16)]"

definition encode_error_msg :: "pystr \<Rightarrow> pystr" where
  "encode_error_msg text =
     (let start = length (takeWhile (\<lambda>c. \<not> is_surrogate c) text);
          run = takeWhile is_surrogate (drop start text)
      in [39] @ py ''utf-8'' @ [39] @ py '' codec can'' @ [39] @ py ''t encode ''
         @ (case run of
              [c] \<Rightarrow> py ''character '' @ [39, 92] @ py ''u'' @ hex4_of c @ [39]
                       @ py '' in position '' @ str_nat start
            | _ \<Rightarrow> py ''characters in position '' @ str_nat start @ py ''-''
                       @ str_nat (start + length run - 1))
         @ py '': surrogates not allowed'')"

definition printable :: "pystr \<Rightarrow> bool" where
  "printable text = list_all (\<lambda>c. \<not> is_surrogate c) text"

definition py_print :: "pystr \<Rightarrow> exn + unit" where
  "py_print text =
     (if printable text then Inr ()
      else Inl (Exn UnicodeEncodeError (encode_error_msg text)))"

section \<open>Fallback Metadata Generator\<close>

text \<open>The keys of a Metadata dict and the two language names.\<close>

definition k_line_count :: pystr where "k_line_count = py ''line_count''"
definition k_language :: pystr where "k_language = py ''language''"
definition k_tags :: pystr where "k_tags = py ''tags''"
definition k_text :: pystr where "k_text = py ''text''"
definition English :: pystr where "English = py ''English''"
definition French :: pystr where "French = py ''French''"

definition french_words :: "pystr list" where
  "french_words = map py [''le'', ''la'', ''les'', ''de'', ''du'', ''des'', ''et'', ''est'',
     ''une'', ''un'', ''ce'', ''cette'']"

text \<open>The dict \<open>linkedin_keywords\<close>, in its insertion order, which the loop follows.\<close>

definition linkedin_keywords :: "(pystr \<times> pystr list) list" where
  "linkedin_keywords =
    [(py ''career'', map py [''career'', ''job'', ''work'', ''employment'']),
     (py ''business'', map py [''business'', ''company'', ''startup'', ''entrepreneur'']),
     (py ''tech'', map py [''technology'', ''tech'', ''ai'', ''digital'', ''software'']),
     (py ''leadership'', map py [''leadership'', ''management'', ''team'', ''leader'']),
     (py ''marketing'', map py [''marketing'', ''brand'', ''social media'']),
     (py ''networking'', map py [''network'', ''connection'', ''professional''])]"

text \<open>\<open>sum(1 for word in french_words if word in text_lower)\<close>\<close>

definition french_count :: "pystr \<Rightarrow> nat" where
  "french_count text_lower = length (filter (\<lambda>word. sublist word text_lower) french_words)"

text \<open>
  The loop of lines 181 to 185 over the remaining entries of the table, \<open>tags\<close> being the
  list built so far; the \<open>break\<close> is the branch that returns without a recursive call.
\<close>

fun collect_tags :: "(pystr \<times> pystr list) list \<Rightarrow> pystr \<Rightarrow> pystr list \<Rightarrow> pystr list" where
  "collect_tags [] post_lower tags = tags"
| "collect_tags ((tag, keywords) # rest) post_lower tags =
     (if list_ex (\<lambda>keyword. sublist keyword post_lower) keywords
      then (if length (tags @ [tag]) \<ge> 2 then tags @ [tag]
            else collect_tags rest post_lower (tags @ [tag]))
      else collect_tags rest post_lower tags)"

definition get_fallback_metadata :: "(pystr \<Rightarrow> pystr) \<Rightarrow> pystr \<Rightarrow> json" where
  "get_fallback_metadata L post =
     (let line_count = length (split_on 10 post);
          text_lower = lower L post;
          language = (if french_count text_lower > 3 then French else English);
          post_lower = lower L post;
          tags = collect_tags linkedin_keywords post_lower []
      in JObj [(k_line_count, JInt (int line_count)),
               (k_language, JStr language),
               (k_tags, JArr (map JStr tags))])"

section \<open>Regular expressions of the \<open>re\<close> module\<close>

text \<open>
  The two patterns of the Response Parser are written in this syntax tree: a character
  class, concatenation, the greedy \<open>?\<close> and \<open>*\<close>, the lazy \<open>*?\<close> and a capturing group.
\<close>

datatype rx = Eps | Chr "nat \<Rightarrow> bool" | Cat rx rx | Opt rx | Star rx | Lazy rx | Grp rx

text \<open>
  The backtracking matcher. \<open>rx_run r s\<close> lists every way \<open>r\<close> matches a prefix of \<open>s\<close>,
  in the order in which the matcher tries them: each entry is what is left of \<open>s\<close> after
  the match, with the texts of the groups. A greedy operator lists the longer
  alternative first, a lazy one the shorter. An iteration of a repetition that consumes
  nothing is not repeated; the bodies of the repetitions in the two patterns always
  consume a character, and none of them contains a group.
\<close>

function rx_run :: "rx \<Rightarrow> pystr \<Rightarrow> (pystr \<times> pystr list) list" where
  "rx_run Eps s = [(s, [])]"
| "rx_run (Chr P) s = (case s of [] \<Rightarrow> [] | c # t \<Rightarrow> if P c then [(t, [])] else [])"
| "rx_run (Cat a b) s =
     concat (map (\<lambda>(s1, g1). map (\<lambda>(s2, g2). (s2, g1 @ g2)) (rx_run b s1)) (rx_run a s))"
| "rx_run (Opt a) s = rx_run a s @ [(s, [])]"
| "rx_run (Star a) s =
     concat (map (\<lambda>(s1, g1). if length s1 < length s then rx_run (Star a) s1 else [])
                 (rx_run a s)) @ [(s, [])]"
| "rx_run (Lazy a) s =
     (s, []) # concat (map (\<lambda>(s1, g1). if length s1 < length s then rx_run (Lazy a) s1 else [])
                           (rx_run a s))"
| "rx_run (Grp a) s = map (\<lambda>(s1, g1). (s1, take (length s - length s1) s # g1)) (rx_run a s)"
  by pat_completeness auto
termination
  by (relation "measures [\<lambda>(r, s). size r, \<lambda>(r, s). length s]") auto

declare rx_run.simps [simp del]

text \<open>A literal string, and a literal letter under \<open>re.IGNORECASE\<close>.\<close>

definition lit :: "pystr \<Rightarrow> rx" where
  "lit w = foldr (\<lambda>c r. Cat (Chr (\<lambda>x. x = c)) r) w Eps"

text \<open>
  Under \<open>re.IGNORECASE\<close> a lowercase ASCII letter of a pattern matches itself and its
  capital, and \<open>s\<close> also matches U+017F, the long s.
\<close>

definition ichr :: "nat \<Rightarrow> rx" where
  "ichr c = Chr (\<lambda>x. x = c \<or> x + 32 = c \<or> (c = 115 \<and> x = 383))"

definition ilit :: "pystr \<Rightarrow> rx" where
  "ilit w = foldr (\<lambda>c r. Cat (ichr c) r) w Eps"

text \<open>A pattern without a capturing group.\<close>

fun grp_free :: "rx \<Rightarrow> bool" where
  "grp_free Eps = True"
| "grp_free (Chr P) = True"
| "grp_free (Cat a b) = (grp_free a \<and> grp_free b)"
| "grp_free (Opt a) = grp_free a"
| "grp_free (Star a) = grp_free a"
| "grp_free (Lazy a) = grp_free a"
| "grp_free (Grp a) = False"

text \<open>
  \<open>re.search\<close>: the first way of matching at the leftmost position that has one. The
  result is the list of group texts of that match.
\<close>

fun re_search :: "rx \<Rightarrow> pystr \<Rightarrow> pystr list option" where
  "re_search r [] = (case rx_run r [] of [] \<Rightarrow> None | (s1, g) # _ \<Rightarrow> Some g)"
| "re_search r (c # s) =
     (case rx_run r (c # s) of [] \<Rightarrow> re_search r s | (s1, g) # _ \<Rightarrow> Some g)"

text \<open>
  \<open>re.findall\<close> for a pattern without groups: the matched texts, left to right, the
  scan going on where the last match ended. After an empty match the next match at the
  same position must consume a character (\<open>must_advance\<close>).
\<close>

function re_findall_from :: "rx \<Rightarrow> bool \<Rightarrow> pystr \<Rightarrow> pystr list" where
  "re_findall_from r must_advance s =
     (case filter (\<lambda>(s1, g). \<not> must_advance \<or> length s1 < length s) (rx_run r s) of
        [] \<Rightarrow> (case s of [] \<Rightarrow> [] | c # t \<Rightarrow> re_findall_from r False t)
      | (s1, g) # _ \<Rightarrow>
          if length s1 < length s
          then take (length s - length s1) s # re_findall_from r False s1
          else if must_advance then []
          else [] # re_findall_from r True s)"
  by pat_completeness auto
termination
  by (relation "measures [\<lambda>(r, m, s). length s, \<lambda>(r, m, s). if m then 0 else 1]") auto

declare re_findall_from.simps [simp del]

definition re_findall :: "rx \<Rightarrow> pystr \<Rightarrow> pystr list" where
  "re_findall r s = re_findall_from r False s"

section \<open>Response Parser\<close>

text \<open>
  The pattern of line 74 with \<open>re.DOTALL | re.IGNORECASE\<close>: three backquotes, an
  optional \<open>json\<close>, whitespace, the group (a brace, any characters, lazily, and a brace),
  whitespace, three backquotes.
\<close>

definition json_block_pattern :: rx where
  "json_block_pattern =
     Cat (lit (py ''```''))
      (Cat (Opt (ilit (py ''json'')))
        (Cat (Star (Chr isspace))
          (Cat (Grp (Cat (Chr (\<lambda>x. x = 123)) (Cat (Lazy (Chr (\<lambda>x. True))) (Chr (\<lambda>x. x = 125)))))
            (Cat (Star (Chr isspace)) (lit (py ''```''))))))"

text \<open>
  The pattern of line 80: a brace, characters other than braces, any number of times an
  inner pair of braces followed by characters other than braces, and a brace.
\<close>

definition no_brace :: "nat \<Rightarrow> bool" where
  "no_brace x = (x \<noteq> 123 \<and> x \<noteq> 125)"

definition json_pattern :: rx where
  "json_pattern =
     Cat (Chr (\<lambda>x. x = 123))
      (Cat (Star (Chr no_brace))
        (Cat (Star (Cat (Chr (\<lambda>x. x = 123))
                     (Cat (Star (Chr no_brace))
                       (Cat (Chr (\<lambda>x. x = 125)) (Star (Chr no_brace))))))
          (Chr (\<lambda>x. x = 125))))"

text \<open>\<open>max(matches, key=len)\<close>: the first of the longest entries.\<close>

definition max_by_len :: "pystr list \<Rightarrow> pystr" where
  "max_by_len xs = foldl (\<lambda>best x. if length x > length best then x else best) (hd xs) (tl xs)"

text \<open>\<open>str.find\<close> and \<open>str.rfind\<close> of one character: the index, or \<open>-1\<close>.\<close>

fun find_char :: "nat \<Rightarrow> pystr \<Rightarrow> int" where
  "find_char c [] = -1"
| "find_char c (x # s) = (if x = c then 0 else (let i = find_char c s in if i = -1 then -1 else i + 1))"

definition rfind_char :: "nat \<Rightarrow> pystr \<Rightarrow> int" where
  "rfind_char c s = (let i = find_char c (rev s) in if i = -1 then -1 else int (length s) - 1 - i)"

text \<open>
  \<open>extract_json_from_text\<close>, lines 69 to 92. \<open>None\<close> is Python's \<open>None\<close>.
  \<open>match.group(1)\<close> is the head of the list of groups: every match of the fenced pattern
  has exactly one group (lemma \<open>block_groups\<close> below).
\<close>

definition extract_json_from_text :: "pystr \<Rightarrow> pystr option" where
  "extract_json_from_text text =
     (case re_search json_block_pattern text of
        Some groups \<Rightarrow> Some (strip (hd groups))
      | None \<Rightarrow>
          (let matches = re_findall json_pattern text in
           if matches \<noteq> [] then Some (strip (max_by_len matches))
           else
             (let start_idx = find_char 123 text; end_idx = rfind_char 125 text in
              if start_idx \<noteq> -1 \<and> end_idx \<noteq> -1 \<and> start_idx < end_idx
              then Some (strip (take (nat (end_idx + 1 - start_idx)) (drop (nat start_idx) text)))
              else None)))"

section \<open>The JSON decoder of the standard library\<close>

text \<open>
  \<open>json.loads\<close> is not code of the repository: the Metadata Extractor below takes it as
  a parameter. \<open>json_loads\<close> is a model of CPython's decoder, used where a concrete
  decoder is needed. It follows the scanner of the \<open>json\<close> module on the remaining
  input: an error carries the number of characters that were left where it happened,
  from which the position in the message is computed. A float is kept as its lexeme.
  The first argument of the three mutually recursive functions bounds the calls still
  allowed. A value calls a loop and a loop calls a value or itself, and of two calls in a
  row one reads a character, so \<open>json_loads\<close> starts with twice the length of the
  document and two more, and the bound never runs out (\<open>json_loads_bound\<close> below).
  The second argument \<open>depth\<close> is the number of nested objects and arrays that the
  interpreter still allows: the scanner enters a recursive call at every opening brace
  and bracket, and CPython raises \<open>RecursionError\<close> when its recursion limit (1000 by
  default) is reached. How much of the limit is left where \<open>json.loads\<close> is called
  depends on the frames in use, so it is a parameter of \<open>json_loads\<close>. The limit of
  CPython on the number of digits of an integer is not modelled.
\<close>

definition json_error :: "pystr \<Rightarrow> pystr \<Rightarrow> nat \<Rightarrow> exn" where
  "json_error m doc pos =
     (let before = take pos doc;
          lineno = length (filter (\<lambda>c. c = 10) before) + 1;
          colno = length (takeWhile (\<lambda>c. c \<noteq> 10) (rev before)) + 1
      in Exn JSONDecodeError
           (m @ py '': line '' @ str_nat lineno @ py '' column '' @ str_nat colno
              @ py '' (char '' @ str_nat pos @ py '')''))"

datatype scan_err = Stop nat | Fail pystr nat | Deep pystr | Bound

definition json_ws :: "nat \<Rightarrow> bool" where
  "json_ws c = (c = 32 \<or> c = 9 \<or> c = 10 \<or> c = 13)"

definition skip_ws :: "pystr \<Rightarrow> pystr" where
  "skip_ws s = dropWhile json_ws s"

definition is_digit :: "nat \<Rightarrow> bool" where
  "is_digit c = (48 \<le> c \<and> c \<le> 57)"

definition hexval :: "nat \<Rightarrow> nat option" where
  "hexval c =
     (if 48 \<le> c \<and> c \<le> 57 then Some (c - 48)
      else if 97 \<le> c \<and> c \<le> 102 then Some (c - 87)
      else if 65 \<le> c \<and> c \<le> 70 then Some (c - 55)
      else None)"

fun hex4 :: "pystr \<Rightarrow> nat option" where
  "hex4 [a, b, c, d] =
     (case (hexval a, hexval b, hexval c, hexval d) of
        (Some x, Some y, Some z, Some w) \<Rightarrow> Some (((x * 16 + y) * 16 + z) * 16 + w)
      | _ \<Rightarrow> None)"
| "hex4 _ = None"

definition backslash :: "nat \<Rightarrow> nat option" where
  "backslash e =
     (if e = 34 \<or> e = 92 \<or> e = 47 then Some e
      else if e = 98 then Some 8
      else if e = 102 then Some 12
      else if e = 110 then Some 10
      else if e = 114 then Some 13
      else if e = 116 then Some 9
      else None)"

text \<open>
  \<open>scanstring\<close> after the opening quote. \<open>b\<close> is the number of characters left at the
  opening quote, \<open>acc\<close> the decoded text so far.
\<close>

fun scanstring :: "nat \<Rightarrow> pystr \<Rightarrow> pystr \<Rightarrow> scan_err + (pystr \<times> pystr)" where
  "scanstring b acc [] = Inl (Fail (py ''Unterminated string starting at'') b)"
| "scanstring b acc (c # s) =
     (if c = 34 then Inr (acc, s)
      else if c = 92 then
        (case s of
           [] \<Rightarrow> Inl (Fail (py ''Unterminated string starting at'') b)
         | e # s1 \<Rightarrow>
             if e \<noteq> 117 then
               (case backslash e of
                  None \<Rightarrow> Inl (Fail (py ''Invalid '' @ [92] @ py ''escape'') (length (c # s)))
                | Some ch \<Rightarrow> scanstring b (acc @ [ch]) s1)
             else if length s1 \<le> 4 then Inl (Fail (py ''Invalid '' @ [92] @ py ''uXXXX escape'') (length s))
             else
               (case hex4 (take 4 s1) of
                  None \<Rightarrow> Inl (Fail (py ''Invalid '' @ [92] @ py ''uXXXX escape'') (length s))
                | Some u \<Rightarrow>
                    (let s2 = drop 4 s1 in
                     if 55296 \<le> u \<and> u \<le> 56319 \<and> length s2 > 6 \<and> take 2 s2 = [92, 117] then
                       (case hex4 (take 4 (drop 2 s2)) of
                          None \<Rightarrow> Inl (Fail (py ''Invalid '' @ [92] @ py ''uXXXX escape'') (length s2 - 1))
                        | Some u2 \<Rightarrow>
                            if 56320 \<le> u2 \<and> u2 \<le> 57343
                            then scanstring b
                                   (acc @ [65536 + (u - 55296) * 1024 + (u2 - 56320)]) (drop 6 s2)
                            else scanstring b (acc @ [u]) s2)
                     else scanstring b (acc @ [u]) s2)))
      else if c \<le> 31 then Inl (Fail (py ''Invalid control character at'') (length (c # s)))
      else scanstring b (acc @ [c]) s)"

text \<open>
  The number scanner: an optional minus, \<open>0\<close> or a nonzero digit and digits, then an
  optional fraction and an optional exponent, each taken only when a digit follows.
\<close>

definition digits_value :: "pystr \<Rightarrow> int" where
  "digits_value ds = foldl (\<lambda>a d. 10 * a + (int d - 48)) 0 ds"

definition number_tail :: "pystr \<Rightarrow> pystr \<Rightarrow> scan_err + (json \<times> pystr)" where
  "number_tail s r =
     (let r1 = (case r of
                  c # d # t \<Rightarrow> if c = 46 \<and> is_digit d then dropWhile is_digit (d # t) else r
                | _ \<Rightarrow> r);
          r2 = (case r1 of
                  c # t \<Rightarrow>
                    if c = 101 \<or> c = 69 then
                      (let t1 = (case t of g # u \<Rightarrow> if g = 43 \<or> g = 45 then u else t | [] \<Rightarrow> t)
                       in (case t1 of
                             d # _ \<Rightarrow> if is_digit d then dropWhile is_digit t1 else r1
                           | [] \<Rightarrow> r1))
                    else r1
                | [] \<Rightarrow> r1);
          lexeme = take (length s - length r2) s
      in if length r2 = length r
         then (case lexeme of
                 c # ds \<Rightarrow> if c = 45 then Inr (JInt (- digits_value ds), r2)
                           else Inr (JInt (digits_value lexeme), r2)
               | [] \<Rightarrow> Inl (Stop (length s)))
         else Inr (JFloat lexeme, r2))"

definition match_number :: "pystr \<Rightarrow> scan_err + (json \<times> pystr)" where
  "match_number s =
     (let s1 = (case s of c # t \<Rightarrow> if c = 45 then t else s | [] \<Rightarrow> s)
      in (case s1 of
            [] \<Rightarrow> Inl (Stop (length s))
          | d # t \<Rightarrow>
              if 49 \<le> d \<and> d \<le> 57 then number_tail s (dropWhile is_digit s1)
              else if d = 48 then number_tail s t
              else Inl (Stop (length s))))"

fun scan_once :: "nat \<Rightarrow> nat \<Rightarrow> pystr \<Rightarrow> scan_err + (json \<times> pystr)"
  and parse_object_loop ::
    "nat \<Rightarrow> nat \<Rightarrow> (pystr \<times> json) list \<Rightarrow> pystr \<Rightarrow> scan_err + (json \<times> pystr)"
  and parse_array_loop :: "nat \<Rightarrow> nat \<Rightarrow> json list \<Rightarrow> pystr \<Rightarrow> scan_err + (json \<times> pystr)"
where
  "scan_once 0 depth s = Inl Bound"
| "scan_once (Suc n) depth s =
     (case s of
        [] \<Rightarrow> Inl (Stop 0)
      | c # t \<Rightarrow>
          if c = 34 then
            (case scanstring (length s) [] t of
               Inl e \<Rightarrow> Inl e
             | Inr (str, r) \<Rightarrow> Inr (JStr str, r))
          else if c = 123 then
            (if depth = 0 then Inl (Deep (py ''object''))
             else
               (case skip_ws t of
                  [] \<Rightarrow> parse_object_loop n (depth - 1) [] []
                | x # r \<Rightarrow>
                    if x = 125 then Inr (JObj [], r)
                    else parse_object_loop n (depth - 1) [] (x # r)))
          else if c = 91 then
            (if depth = 0 then Inl (Deep (py ''array''))
             else
               (case skip_ws t of
                  [] \<Rightarrow> parse_array_loop n (depth - 1) [] []
                | x # r \<Rightarrow>
                    if x = 93 then Inr (JArr [], r)
                    else parse_array_loop n (depth - 1) [] (x # r)))
          else if prefix (py ''null'') s then Inr (JNull, drop 4 s)
          else if prefix (py ''true'') s then Inr (JBool True, drop 4 s)
          else if prefix (py ''false'') s then Inr (JBool False, drop 5 s)
          else if prefix (py ''NaN'') s then Inr (JFloat (py ''NaN''), drop 3 s)
          else if prefix (py ''Infinity'') s then Inr (JFloat (py ''Infinity''), drop 8 s)
          else if prefix (py ''-Infinity'') s then Inr (JFloat (py ''-Infinity''), drop 9 s)
          else match_number s)"
| "parse_object_loop 0 depth pairs s = Inl Bound"
| "parse_object_loop (Suc n) depth pairs s =
     (case s of
        [] \<Rightarrow> Inl (Fail (py ''Expecting property name enclosed in double quotes'') 0)
      | q # s1 \<Rightarrow>
          if q \<noteq> 34
          then Inl (Fail (py ''Expecting property name enclosed in double quotes'') (length s))
          else
            (case scanstring (length s) [] s1 of
               Inl e \<Rightarrow> Inl e
             | Inr (key, s2) \<Rightarrow>
                 (case skip_ws s2 of
                    [] \<Rightarrow> Inl (Fail (py ''Expecting '' @ [39, 58, 39] @ py '' delimiter'') 0)
                  | c3 # s4 \<Rightarrow>
                      if c3 \<noteq> 58
                      then Inl (Fail (py ''Expecting '' @ [39, 58, 39] @ py '' delimiter'') (length (c3 # s4)))
                      else
                        (case scan_once n depth (skip_ws s4) of
                           Inl e \<Rightarrow> Inl e
                         | Inr (v, s5) \<Rightarrow>
                             (case skip_ws s5 of
                                [] \<Rightarrow> Inl (Fail (py ''Expecting '' @ [39, 44, 39] @ py '' delimiter'') 0)
                              | c6 # s7 \<Rightarrow>
                                  if c6 = 125
                                  then Inr (JObj (dict_merge [] (pairs @ [(key, v)])), s7)
                                  else if c6 = 44
                                  then parse_object_loop n depth (pairs @ [(key, v)]) (skip_ws s7)
                                  else Inl (Fail (py ''Expecting '' @ [39, 44, 39] @ py '' delimiter'')
                                              (length (c6 # s7))))))))"
| "parse_array_loop 0 depth vals s = Inl Bound"
| "parse_array_loop (Suc n) depth vals s =
     (case scan_once n depth s of
        Inl e \<Rightarrow> Inl e
      | Inr (v, r) \<Rightarrow>
          (case skip_ws r of
             [] \<Rightarrow> Inl (Fail (py ''Expecting '' @ [39, 44, 39] @ py '' delimiter'') 0)
           | c # t \<Rightarrow>
               if c = 93 then Inr (JArr (vals @ [v]), t)
               else if c = 44 then parse_array_loop n depth (vals @ [v]) (skip_ws t)
               else Inl (Fail (py ''Expecting '' @ [39, 44, 39] @ py '' delimiter'') (length (c # t)))))"

definition json_loads :: "nat \<Rightarrow> pystr \<Rightarrow> exn + json" where
  "json_loads depth doc =
     (if prefix [65279] doc
      then Inl (json_error (py ''Unexpected UTF-8 BOM (decode using utf-8-sig)'') doc 0)
      else
        (case scan_once (Suc (Suc (length doc + length doc))) depth (skip_ws doc) of
           Inl (Stop r) \<Rightarrow> Inl (json_error (py ''Expecting value'') doc (length doc - r))
         | Inl (Fail m r) \<Rightarrow> Inl (json_error m doc (length doc - r))
         | Inl (Deep what) \<Rightarrow>
             Inl (Exn RecursionError
                    (py ''maximum recursion depth exceeded while decoding a JSON '' @ what
                       @ py '' from a unicode string''))
         | Inl Bound \<Rightarrow> Inl (Exn RecursionError (py ''maximum recursion depth exceeded''))
         | Inr (v, rest) \<Rightarrow>
             (case skip_ws rest of
                [] \<Rightarrow> Inr v
              | c # t \<Rightarrow> Inl (json_error (py ''Extra data'') doc (length doc - length (c # t))))))"

section \<open>Metadata Extractor\<close>

text \<open>The template of lines 130 to 139, before and after the placeholder.\<close>

definition template_head :: pystr where
  \<open>template_head =
     py ''Extract the following information from this LinkedIn post:'' @ [10]
     @ py ''    - line_count: number of lines'' @ [10]
     @ py ''    - language: either '' @ [34] @ py ''English'' @ [34] @ py '' or ''
     @ [34] @ py ''French'' @ [34] @ [10]
     @ py ''    - tags: array of maximum two relevant tags'' @ [10, 10]
     @ py ''    CRITICAL: Return ONLY a valid JSON object. No explanations, no markdown, no additional text.''
     @ [10, 10] @ py ''    Post: ''\<close>

definition template_tail :: pystr where
  "template_tail = [10, 10] @ py ''    JSON:''"

text \<open>Lines 126 to 128, and the rendering of the template with the post.\<close>

definition truncate_post :: "pystr \<Rightarrow> pystr" where
  "truncate_post post =
     (let max_post_length = 1000
      in if length post > max_post_length then take max_post_length post @ py ''...'' else post)"

definition render_prompt :: "pystr \<Rightarrow> pystr" where
  "render_prompt post = template_head @ post @ template_tail"

text \<open>
  \<open>extract_metadata\<close>, lines 123 to 155. Its collaborators are parameters: \<open>D\<close> is
  \<open>json.loads\<close>, and \<open>llm\<close> is this call of the completion capability, from the rendered
  prompt to the text of the response, or the exception that the call (or reading the
  response) raises.
\<close>

definition extract_metadata ::
  "(pystr \<Rightarrow> exn + json) \<Rightarrow> (pystr \<Rightarrow> exn + pystr) \<Rightarrow> pystr \<Rightarrow> exn + json" where
  "extract_metadata D llm post =
     (case llm (render_prompt (truncate_post post)) of
        Inl e \<Rightarrow> Inl e
      | Inr response \<Rightarrow>
          (let text = strip response in
           (case extract_json_from_text text of
              None \<Rightarrow> Inl (Exn ValueError (py ''No valid JSON found in response''))
            | Some json_str \<Rightarrow>
                if json_str = []
                then Inl (Exn ValueError (py ''No valid JSON found in response''))
                else D json_str)))"

section \<open>Retry Controller\<close>

text \<open>The test of lines 105 to 107 on the lowercased message.\<close>

definition is_retryable :: "pystr \<Rightarrow> bool" where
  "is_retryable error_msg =
     (sublist (py ''503'') error_msg \<or> sublist (py ''service unavailable'') error_msg
      \<or> sublist (py ''invalid json output'') error_msg
      \<or> sublist (py ''expecting value'') error_msg
      \<or> sublist (py ''context too big'') error_msg)"

text \<open>The text that line 109 prints.\<close>

definition retry_notice :: "nat \<Rightarrow> int \<Rightarrow> int \<Rightarrow> pystr" where
  "retry_notice attempt max_retries wait_time =
     py ''API unavailable (attempt '' @ str_nat (attempt + 1) @ py ''/'' @ str_int max_retries
     @ py ''). Retrying in '' @ str_int wait_time @ py ''s...''"

text \<open>
  Lines 118 to 120, after the loop. \<open>calls\<close> counts the calls of the extractor and
  \<open>slept\<close> lists the arguments of \<open>time.sleep\<close> so far. The result of the controller is
  what it returns or raises, together with these two.
\<close>

definition after_loop ::
  "(pystr \<Rightarrow> pystr) \<Rightarrow> pystr \<Rightarrow> nat \<Rightarrow> int list \<Rightarrow> (exn + json) \<times> nat \<times> int list" where
  "after_loop L post calls slept =
     (case py_print (py ''All API attempts failed, using fallback metadata'') of
        Inl e \<Rightarrow> (Inl e, calls, slept)
      | Inr _ \<Rightarrow> (Inr (get_fallback_metadata L post), calls, slept))"

text \<open>
  The loop of \<open>extract_metadata_with_retry\<close>, lines 98 to 116, from the iteration
  \<open>attempt\<close> on. \<open>ex a\<close> is what the call of \<open>extract_metadata\<close> in iteration \<open>a\<close> does:
  it returns a value or raises. The \<open>try\<close> holds this call only, so an exception that a
  \<open>print\<close> of the handler raises leaves the function. The \<open>break\<close> of line 116 goes on
  after the loop.
\<close>

function retry_from ::
  "(pystr \<Rightarrow> pystr) \<Rightarrow> (nat \<Rightarrow> exn + json) \<Rightarrow> pystr \<Rightarrow> int \<Rightarrow> nat \<Rightarrow> int list
   \<Rightarrow> (exn + json) \<times> nat \<times> int list" where
  "retry_from L ex post max_retries attempt slept =
     (if int attempt < max_retries then
        (case ex attempt of
           Inr metadata \<Rightarrow> (Inr metadata, Suc attempt, slept)
         | Inl e \<Rightarrow>
             (let error_msg = lower L (msg e) in
              if is_retryable error_msg then
                (let wait_time = (2 ^ attempt) * 5 in
                 (case py_print (retry_notice attempt max_retries wait_time) of
                    Inl e' \<Rightarrow> (Inl e', Suc attempt, slept)
                  | Inr _ \<Rightarrow>
                      retry_from L ex post max_retries (Suc attempt)
                        (if int attempt < max_retries - 1 then slept @ [wait_time] else slept)))
              else
                (case py_print (py ''Non-retryable error: '' @ msg e) of
                   Inl e' \<Rightarrow> (Inl e', Suc attempt, slept)
                 | Inr _ \<Rightarrow> after_loop L post (Suc attempt) slept)))
      else after_loop L post attempt slept)"
  by pat_completeness auto
termination
  by (relation "measure (\<lambda>(L, ex, post, max_retries, attempt, slept). nat (max_retries - int attempt))")
    auto

declare retry_from.simps [simp del]

definition extract_metadata_with_retry ::
  "(pystr \<Rightarrow> pystr) \<Rightarrow> (nat \<Rightarrow> exn + json) \<Rightarrow> pystr \<Rightarrow> int
   \<Rightarrow> (exn + json) \<times> nat \<times> int list" where
  "extract_metadata_with_retry L ex post max_retries = retry_from L ex post max_retries 0 []"

section \<open>Batch Processor\<close>

text \<open>
  The state that the batch threads through the posts: how many calls of the completion
  capability were made, and the sleeps. \<open>llm k\<close> is the call number \<open>k\<close> of the run.
\<close>

type_synonym run_state = "nat \<times> int list"

definition type_name :: "json \<Rightarrow> pystr" where
  "type_name v =
     (case v of JNull \<Rightarrow> py ''NoneType'' | JBool _ \<Rightarrow> py ''bool'' | JInt _ \<Rightarrow> py ''int''
      | JFloat _ \<Rightarrow> py ''float'' | JStr _ \<Rightarrow> py ''str'' | JArr _ \<Rightarrow> py ''list''
      | JObj _ \<Rightarrow> py ''dict'')"

definition no_attribute :: "json \<Rightarrow> pystr \<Rightarrow> exn" where
  "no_attribute v a =
     Exn AttributeError
       ([39] @ type_name v @ [39] @ py '' object has no attribute '' @ [39] @ a @ [39])"

text \<open>
  What \<open>post['text']\<close> raises: \<open>KeyError\<close> on a dict without the key, \<open>TypeError\<close> on a
  value that is not a dict. And what \<open>{**post, **metadata}\<close> raises when \<open>metadata\<close> is
  not a dict.
\<close>

definition subscript_error :: "json \<Rightarrow> exn" where
  "subscript_error post =
     (case post of
        JObj _ \<Rightarrow> Exn KeyError ([39] @ k_text @ [39])
      | JArr _ \<Rightarrow> Exn TypeError (py ''list indices must be integers or slices, not str'')
      | JStr _ \<Rightarrow> Exn TypeError (py ''string indices must be integers, not '' @ [39] @ py ''str'' @ [39])
      | _ \<Rightarrow> Exn TypeError ([39] @ type_name post @ [39] @ py '' object is not subscriptable''))"

definition not_a_mapping :: "json \<Rightarrow> exn" where
  "not_a_mapping v = Exn TypeError ([39] @ type_name v @ [39] @ py '' object is not a mapping'')"

text \<open>
  Lines 30 to 35 of the handler, on the post as it is when the exception arrives. An
  exception raised here leaves \<open>process_posts\<close>.
\<close>

definition except_record :: "json \<Rightarrow> exn + json" where
  "except_record post =
     (case post of
        JObj d \<Rightarrow>
          (case (case map_of d k_text of None \<Rightarrow> JStr [] | Some v \<Rightarrow> v) of
             JStr t \<Rightarrow>
               (let fallback_metadata =
                      [(k_line_count, JInt (int (length (split_on 10 t)))),
                       (k_language, JStr English),
                       (k_tags, JArr [])]
                in Inr (JObj (dict_merge d fallback_metadata)))
           | v \<Rightarrow> Inl (no_attribute v (py ''split'')))
      | _ \<Rightarrow> Inl (no_attribute post (py ''get'')))"

text \<open>
  The handler of lines 27 to 37 for the post of index \<open>i\<close>: it prints the exception \<open>e\<close>,
  then appends the record of lines 30 to 35 to what the iteration has appended already.
\<close>

definition handle_item ::
  "nat \<Rightarrow> exn \<Rightarrow> json \<Rightarrow> run_state \<Rightarrow> json list \<Rightarrow> exn + (json list \<times> run_state)" where
  "handle_item i e post st appended =
     (case py_print (py ''Error processing post '' @ str_nat (i + 1) @ py '': '' @ msg e) of
        Inl e' \<Rightarrow> Inl e'
      | Inr _ \<Rightarrow>
          (case except_record post of
             Inl e' \<Rightarrow> Inl e'
           | Inr post_metadata \<Rightarrow> Inr (appended @ [post_metadata], st)))"

text \<open>
  One iteration of the loop of \<open>process_posts\<close>, lines 15 to 37, for the post of index
  \<open>i\<close> of \<open>n\<close>: the \<open>try\<close> block, and the handler wherever the block raises. The result is
  the list of the records that the iteration appends to \<open>enriched_posts\<close>, and the new
  state. The handler sees the post with its text replaced once line 18 has run.
\<close>

definition process_item ::
  "(pystr \<Rightarrow> pystr) \<Rightarrow> (json \<Rightarrow> pystr) \<Rightarrow> (pystr \<Rightarrow> exn + json)
   \<Rightarrow> (nat \<Rightarrow> pystr \<Rightarrow> exn + pystr) \<Rightarrow> nat \<Rightarrow> nat \<Rightarrow> run_state \<Rightarrow> json
   \<Rightarrow> exn + (json list \<times> run_state)" where
  "process_item L S D llm i n st post =
     (case post of
        JObj d \<Rightarrow>
          (case map_of d k_text of
             None \<Rightarrow> handle_item i (subscript_error post) post st []
           | Some v \<Rightarrow>
               (case clean_unicode S v of
                  Inl e \<Rightarrow> handle_item i e post st []
                | Inr clean_text \<Rightarrow>
                    (let d' = AList.update k_text (JStr clean_text) d;
                         (result, calls, sl) =
                           extract_metadata_with_retry L
                             (\<lambda>a. extract_metadata D (llm (fst st + a)) clean_text)
                             clean_text 3;
                         st' = (fst st + calls, snd st @ sl)
                     in (case result of
                           Inl e \<Rightarrow> handle_item i e (JObj d') st' []
                         | Inr metadata \<Rightarrow>
                             (case metadata of
                                JObj m \<Rightarrow>
                                  (let post_metadata = JObj (dict_merge d' m) in
                                   (case py_print (py ''Processed post '' @ str_nat (i + 1)
                                                     @ py ''/'' @ str_nat n) of
                                      Inl e \<Rightarrow> handle_item i e (JObj d') st' [post_metadata]
                                    | Inr _ \<Rightarrow> Inr ([post_metadata], st')))
                              | _ \<Rightarrow> handle_item i (not_a_mapping metadata) (JObj d') st' [])))))
      | _ \<Rightarrow> handle_item i (subscript_error post) post st [])"

text \<open>
  The loop over the posts from the index \<open>i\<close> on, \<open>n\<close> being \<open>len(posts)\<close>.
  \<open>enriched_posts\<close> is the list built so far. Writing the file (\<open>write_json_safely\<close>) is
  outside the model; the function returns \<open>enriched_posts\<close> as it is after the loop.
\<close>

fun process_loop ::
  "(pystr \<Rightarrow> pystr) \<Rightarrow> (json \<Rightarrow> pystr) \<Rightarrow> (pystr \<Rightarrow> exn + json)
   \<Rightarrow> (nat \<Rightarrow> pystr \<Rightarrow> exn + pystr) \<Rightarrow> nat \<Rightarrow> nat \<Rightarrow> run_state \<Rightarrow> json list \<Rightarrow> json list
   \<Rightarrow> exn + (json list \<times> run_state)" where
  "process_loop L S D llm n i st [] enriched_posts = Inr (enriched_posts, st)"
| "process_loop L S D llm n i st (post # posts) enriched_posts =
     (case process_item L S D llm i n st post of
        Inl e \<Rightarrow> Inl e
      | Inr (appended, st') \<Rightarrow>
          process_loop L S D llm n (Suc i) st' posts (enriched_posts @ appended))"

definition process_posts ::
  "(pystr \<Rightarrow> pystr) \<Rightarrow> (json \<Rightarrow> pystr) \<Rightarrow> (pystr \<Rightarrow> exn + json)
   \<Rightarrow> (nat \<Rightarrow> pystr \<Rightarrow> exn + pystr) \<Rightarrow> json list \<Rightarrow> exn + (json list \<times> run_state)" where
  "process_posts L S D llm posts = process_loop L S D llm (length posts) 0 (0, []) posts []"

section \<open>The predicates of the specification\<close>

text \<open>Reading a field of a dict.\<close>

definition meta_get :: "json \<Rightarrow> pystr \<Rightarrow> json option" where
  "meta_get v k = (case v of JObj d \<Rightarrow> map_of d k | _ \<Rightarrow> None)"

text \<open>
  The schema invariant of the specification on a Metadata record: \<open>line_count\<close> a
  non-negative integer, \<open>language\<close> one of the two names, \<open>tags\<close> at most two strings of
  the fixed category set.
\<close>

definition categories :: "pystr list" where
  "categories = map py [''career'', ''business'', ''tech'', ''leadership'', ''marketing'',
     ''networking'']"

definition is_category :: "json \<Rightarrow> bool" where
  "is_category t = (case t of JStr x \<Rightarrow> x \<in> set categories | _ \<Rightarrow> False)"

definition metadata_ok :: "json \<Rightarrow> bool" where
  "metadata_ok v =
     (case (meta_get v k_line_count, meta_get v k_language, meta_get v k_tags) of
        (Some (JInt n), Some (JStr l), Some (JArr ts)) \<Rightarrow>
          0 \<le> n \<and> (l = English \<or> l = French) \<and> length ts \<le> 2 \<and> list_all is_category ts
      | _ \<Rightarrow> False)"

text \<open>A text that begins with an opening brace and ends with a closing brace.\<close>

definition braced :: "pystr \<Rightarrow> bool" where
  "braced w = (w \<noteq> [] \<and> hd w = 123 \<and> last w = 125)"

text \<open>
  The object of the test of the specification:
  \<^verbatim>\<open>{"line_count": 3, "language": "English", "tags": ["tech"]}\<close>
\<close>

definition fenced_object :: pystr where
  "fenced_object =
     py ''{'' @ [34] @ py ''line_count'' @ [34] @ py '': 3, '' @ [34] @ py ''language'' @ [34]
     @ py '': '' @ [34] @ py ''English'' @ [34] @ py '', '' @ [34] @ py ''tags'' @ [34]
     @ py '': ['' @ [34] @ py ''tech'' @ [34] @ py '']}''"

text \<open>
  An answer of the model that is a JSON object but names a third language:
  \<^verbatim>\<open>{"line_count": 1, "language": "German", "tags": []}\<close>
\<close>

definition german_answer :: pystr where
  "german_answer =
     py ''{'' @ [34] @ py ''line_count'' @ [34] @ py '': 1, '' @ [34] @ py ''language'' @ [34]
     @ py '': '' @ [34] @ py ''German'' @ [34] @ py '', '' @ [34] @ py ''tags'' @ [34]
     @ py '': []}''"

text \<open>A post that is a mapping.\<close>

definition is_dict :: "json \<Rightarrow> bool" where
  "is_dict v = (case v of JObj _ \<Rightarrow> True | _ \<Rightarrow> False)"

text \<open>
  The degenerate fallback metadata of a text: what the Fallback Metadata Generator
  returns for it, with the language set to English and the tags emptied.
\<close>

definition degenerate_fallback :: "(pystr \<Rightarrow> pystr) \<Rightarrow> pystr \<Rightarrow> (pystr \<times> json) list" where
  "degenerate_fallback L t =
     (case get_fallback_metadata L t of
        JObj m \<Rightarrow> dict_merge m [(k_language, JStr English), (k_tags, JArr [])]
      | _ \<Rightarrow> [])"

text \<open>
  The enriched record of the specification for a post that \<open>calls\<close> calls of the
  completion capability precede. The text of the post is sanitized and written back, the
  Retry Controller is called on the sanitized text, and the record is the merge of the
  post with the metadata it returns. When the post has no text, or the controller does
  not return a mapping, the record is the merge of the post with the degenerate fallback
  metadata of the recoverable text.
\<close>

definition spec_controller ::
  "(pystr \<Rightarrow> pystr) \<Rightarrow> (pystr \<Rightarrow> exn + json) \<Rightarrow> (nat \<Rightarrow> pystr \<Rightarrow> exn + pystr) \<Rightarrow> nat \<Rightarrow> pystr
   \<Rightarrow> (exn + json) \<times> nat \<times> int list" where
  "spec_controller L D llm calls text =
     extract_metadata_with_retry L (\<lambda>a. extract_metadata D (llm (calls + a)) text) text 3"

definition spec_enriched_post ::
  "(pystr \<Rightarrow> pystr) \<Rightarrow> (json \<Rightarrow> pystr) \<Rightarrow> (pystr \<Rightarrow> exn + json)
   \<Rightarrow> (nat \<Rightarrow> pystr \<Rightarrow> exn + pystr) \<Rightarrow> nat \<Rightarrow> json \<Rightarrow> json" where
  "spec_enriched_post L S D llm calls post =
     (case post of
        JObj d \<Rightarrow>
          (case map_of d k_text of
             None \<Rightarrow> JObj (dict_merge d (degenerate_fallback L []))
           | Some v \<Rightarrow>
               (case clean_unicode S v of
                  Inl e \<Rightarrow>
                    JObj (dict_merge d (degenerate_fallback L (case v of JStr t \<Rightarrow> t | _ \<Rightarrow> [])))
                | Inr text \<Rightarrow>
                    (case fst (spec_controller L D llm calls text) of
                       Inr (JObj m) \<Rightarrow> JObj (dict_merge (AList.update k_text (JStr text) d) m)
                     | _ \<Rightarrow>
                         JObj (dict_merge (AList.update k_text (JStr text) d)
                                 (degenerate_fallback L text)))))
      | _ \<Rightarrow> post)"

text \<open>
  The calls of the completion capability that a post takes, and the number of calls made
  when the posts of a list have been processed one after the other, starting at \<open>calls\<close>.
\<close>

definition spec_calls ::
  "(pystr \<Rightarrow> pystr) \<Rightarrow> (json \<Rightarrow> pystr) \<Rightarrow> (pystr \<Rightarrow> exn + json)
   \<Rightarrow> (nat \<Rightarrow> pystr \<Rightarrow> exn + pystr) \<Rightarrow> nat \<Rightarrow> json \<Rightarrow> nat" where
  "spec_calls L S D llm calls post =
     (case post of
        JObj d \<Rightarrow>
          (case map_of d k_text of
             None \<Rightarrow> 0
           | Some v \<Rightarrow>
               (case clean_unicode S v of
                  Inl e \<Rightarrow> 0
                | Inr text \<Rightarrow> fst (snd (spec_controller L D llm calls text))))
      | _ \<Rightarrow> 0)"

fun calls_after ::
  "(pystr \<Rightarrow> pystr) \<Rightarrow> (json \<Rightarrow> pystr) \<Rightarrow> (pystr \<Rightarrow> exn + json)
   \<Rightarrow> (nat \<Rightarrow> pystr \<Rightarrow> exn + pystr) \<Rightarrow> nat \<Rightarrow> json list \<Rightarrow> nat" where
  "calls_after L S D llm calls [] = calls"
| "calls_after L S D llm calls (post # posts) =
     calls_after L S D llm (calls + spec_calls L S D llm calls post) posts"

text \<open>
  The enriched records of a list of posts that \<open>calls\<close> calls of the completion
  capability precede, in the order of the posts.
\<close>

fun spec_records ::
  "(pystr \<Rightarrow> pystr) \<Rightarrow> (json \<Rightarrow> pystr) \<Rightarrow> (pystr \<Rightarrow> exn + json)
   \<Rightarrow> (nat \<Rightarrow> pystr \<Rightarrow> exn + pystr) \<Rightarrow> nat \<Rightarrow> json list \<Rightarrow> json list" where
  "spec_records L S D llm calls [] = []"
| "spec_records L S D llm calls (post # posts) =
     spec_enriched_post L S D llm calls post
       # spec_records L S D llm (calls + spec_calls L S D llm calls post) posts"

text \<open>
  The language rule in the words of the specification: the text is cut into lowercase
  words at whitespace, the occurrences of the listed words among them are counted, and
  more than three make the text French.
\<close>

fun tokenize :: "pystr \<Rightarrow> pystr \<Rightarrow> pystr list" where
  "tokenize cur [] = (if cur = [] then [] else [cur])"
| "tokenize cur (c # s) =
     (if isspace c then (if cur = [] then tokenize [] s else cur # tokenize [] s)
      else tokenize (cur @ [c]) s)"

definition spec_french_count :: "(pystr \<Rightarrow> pystr) \<Rightarrow> pystr \<Rightarrow> nat" where
  "spec_french_count L text =
     length (filter (\<lambda>w. w \<in> set french_words) (tokenize [] (lower L text)))"

definition spec_language :: "(pystr \<Rightarrow> pystr) \<Rightarrow> pystr \<Rightarrow> pystr" where
  "spec_language L text = (if spec_french_count L text > 3 then French else English)"

text \<open>The number of places of \<open>s\<close> at which \<open>w\<close> occurs.\<close>

fun occurrences :: "pystr \<Rightarrow> pystr \<Rightarrow> nat" where
  "occurrences w [] = (if w = [] then 1 else 0)"
| "occurrences w (c # s) = (if prefix w (c # s) then 1 else 0) + occurrences w s"

section \<open>Properties of the Text Sanitizer\<close>

lemma encode_utf8_strict_ok:
  "list_all (\<lambda>c. \<not> is_surrogate c) s \<Longrightarrow> \<exists>bs. encode_utf8_strict s = Inr bs"
  by (induction s) auto

lemma encode_utf8_strict_fails:
  "\<not> list_all (\<lambda>c. \<not> is_surrogate c) s \<Longrightarrow>
   \<exists>m. encode_utf8_strict s = Inl (Exn UnicodeEncodeError m)"
  by (induction s) (auto split: sum.splits)

lemma clean_unicode_str_eq:
  "clean_unicode_str s =
     Inr (if list_all (\<lambda>c. \<not> is_surrogate c) s then s else sub_surrogates s)"
proof (cases "list_all (\<lambda>c. \<not> is_surrogate c) s")
  case True
  then obtain bs where "encode_utf8_strict s = Inr bs"
    using encode_utf8_strict_ok by blast
  with True show ?thesis by (simp add: clean_unicode_str_def)
next
  case False
  then obtain m where "encode_utf8_strict s = Inl (Exn UnicodeEncodeError m)"
    using encode_utf8_strict_fails by blast
  with False show ?thesis by (simp add: clean_unicode_str_def)
qed

lemma sub_surrogates_clean: "list_all (\<lambda>c. \<not> is_surrogate c) (sub_surrogates s)"
  by (induction s) (auto simp: sub_surrogates_def is_surrogate_def)

text \<open>
  C8. On every string, with or without surrogate code units, \<open>clean_unicode\<close> returns a
  string (it does not raise), and cleaning the result again returns it unchanged.
\<close>

theorem clean_unicode_total_idempotent:
  "\<exists>t. clean_unicode S (JStr s) = Inr t \<and> clean_unicode S (JStr t) = Inr t"
proof -
  let ?t = "if list_all (\<lambda>c. \<not> is_surrogate c) s then s else sub_surrogates s"
  have 1: "clean_unicode S (JStr s) = Inr ?t"
    by (simp add: clean_unicode_def clean_unicode_str_eq)
  have "list_all (\<lambda>c. \<not> is_surrogate c) ?t"
    by (simp add: sub_surrogates_clean)
  then have 2: "clean_unicode S (JStr ?t) = Inr ?t"
    by (simp add: clean_unicode_def clean_unicode_str_eq)
  from 1 2 show ?thesis by blast
qed

theorem clean_unicode_total_idempotent_witness:
  "clean_unicode (\<lambda>v. []) (JStr [97, 55357, 98, 56832]) = Inr [97, 65533, 98, 65533]
   \<and> clean_unicode (\<lambda>v. []) (JStr [97, 65533, 98, 65533]) = Inr [97, 65533, 98, 65533]"
proof -
  have a: "clean_unicode (\<lambda>v. []) (JStr [97, 55357, 98, 56832]) = Inr [97, 65533, 98, 65533]"
    by (simp add: clean_unicode_def clean_unicode_str_def is_surrogate_def
        sub_surrogates_def)
  from clean_unicode_total_idempotent [of "\<lambda>v. []" "[97, 55357, 98, 56832]"] a
  show ?thesis by simp
qed

section \<open>Properties of printing\<close>

lemma printable_append [simp]: "printable (a @ b) \<longleftrightarrow> printable a \<and> printable b"
  by (simp add: printable_def)

lemma printable_Cons [simp]: "printable (c # s) \<longleftrightarrow> \<not> is_surrogate c \<and> printable s"
  by (simp add: printable_def)

lemma printable_Nil [simp]: "printable []"
  by (simp add: printable_def)

lemma printable_py [simp]: "printable (py s)"
proof -
  have "\<not> is_surrogate (of_char c)" for c :: char
  proof -
    have "(of_char c :: nat) < 256" by (rule nat_of_char_less_256)
    then show ?thesis unfolding is_surrogate_def by linarith
  qed
  then show ?thesis by (simp add: printable_def py_def list_all_iff)
qed

lemma printable_str_nat [simp]: "printable (str_nat n)"
proof (induction n rule: str_nat.induct)
  case (1 n)
  show ?case
  proof (cases "n < 10")
    case True
    then show ?thesis by (subst str_nat.simps) (simp add: is_surrogate_def)
  next
    case False
    have "n mod 10 < 10" by simp
    then have "\<not> is_surrogate (48 + n mod 10)" unfolding is_surrogate_def by linarith
    with False "1.IH" show ?thesis by (subst str_nat.simps) simp
  qed
qed

lemma printable_str_int [simp]: "printable (str_int i)"
  by (simp add: str_int_def is_surrogate_def)

lemma printable_hex4_of [simp]: "printable (hex4_of c)"
proof -
  have "\<not> is_surrogate (hex_digit d)" if "d < 16" for d
    using that by (simp add: hex_digit_def is_surrogate_def)
  then show ?thesis by (simp add: hex4_of_def)
qed

lemma printable_encode_error_msg [simp]: "printable (encode_error_msg text)"
  by (simp add: encode_error_msg_def Let_def is_surrogate_def split: list.split)

lemma py_print_printable: "printable text \<Longrightarrow> py_print text = Inr ()"
  by (simp add: py_print_def)

lemma py_print_raises:
  "py_print text = Inl e \<Longrightarrow> kind e = UnicodeEncodeError \<and> printable (msg e)"
  by (auto simp: py_print_def split: if_splits)

section \<open>Properties of the Fallback Metadata Generator\<close>

lemma collect_tags_length:
  "length tags \<le> 1 \<Longrightarrow> length (collect_tags tbl low tags) \<le> 2"
  by (induction tbl low tags rule: collect_tags.induct) (auto simp: le_Suc_eq)

lemma collect_tags_set:
  "set (collect_tags tbl low tags) \<subseteq> set tags \<union> fst ` set tbl"
  by (induction tbl low tags rule: collect_tags.induct) auto

lemma keywords_categories: "fst ` set linkedin_keywords = set categories"
  by (simp add: linkedin_keywords_def categories_def)

lemma fallback_tags_categories:
  "list_all is_category (map JStr (collect_tags linkedin_keywords low []))"
proof -
  have "set (collect_tags linkedin_keywords low []) \<subseteq> set categories"
    using collect_tags_set [of linkedin_keywords low "[]"] keywords_categories by simp
  then show ?thesis
    by (auto simp: list_all_iff is_category_def)
qed

lemma keys_distinct:
  "k_line_count \<noteq> k_language" "k_line_count \<noteq> k_tags" "k_language \<noteq> k_tags"
  "k_language \<noteq> k_line_count" "k_tags \<noteq> k_line_count" "k_tags \<noteq> k_language"
  by (simp_all add: k_line_count_def k_language_def k_tags_def py_def)

text \<open>
  C3, as amended. Every Metadata record of the fallback path satisfies the schema
  invariant: a non-negative \<open>line_count\<close>, \<open>language\<close> English or French, at most two
  tags, each of the fixed category set. (The model path returns the decoded object as
  it is.)
\<close>

theorem fallback_metadata_ok: "metadata_ok (get_fallback_metadata L post)"
  using collect_tags_length [of "[]" linkedin_keywords "lower L post"]
    fallback_tags_categories [of "lower L post"]
  by (simp add: metadata_ok_def get_fallback_metadata_def meta_get_def Let_def keys_distinct)

theorem fallback_metadata_ok_witness:
  "metadata_ok (get_fallback_metadata (\<lambda>s. s) (py ''My career in tech with a great team''))"
  using fallback_metadata_ok [of "\<lambda>s. s" "py ''My career in tech with a great team''"] .

lemma french_words_distinct: "distinct french_words"
  by (simp add: french_words_def py_def)

lemma french_count_card:
  "french_count low = card {w \<in> set french_words. sublist w low}"
proof -
  have "{w \<in> set french_words. sublist w low} = {w. sublist w low} \<inter> set french_words"
    by auto
  then show ?thesis
    by (simp add: french_count_def distinct_length_filter [OF french_words_distinct])
qed

lemma fallback_language:
  "meta_get (get_fallback_metadata L post) k_language =
     Some (JStr (if 3 < french_count (lower L post) then French else English))"
  by (simp add: get_fallback_metadata_def meta_get_def Let_def keys_distinct)

lemma lower_twelve:
  "lower L (py ''le la les de du des et est une un ce cette'')
     = py ''le la les de du des et est une un ce cette''"
  by (simp add: lower_def py_def ascii_lower_def)

lemma lower_fox: "lower L (py ''the quick brown fox'') = py ''the quick brown fox''"
  by (simp add: lower_def py_def ascii_lower_def)

lemma french_count_twelve:
  "french_count (py ''le la les de du des et est une un ce cette'') = 12"
  by (simp add: french_count_def french_words_def py_def sublist_code)

lemma french_count_fox: "french_count (py ''the quick brown fox'') = 0"
  by (simp add: french_count_def french_words_def py_def sublist_code)

text \<open>
  C6, as amended. The fallback language heuristic counts how many of the twelve listed
  words occur in the lowercased text as a substring, each word once however often it
  occurs, and answers French exactly when more than three of them do, otherwise English.
  The text of the twelve words is French and \<open>the quick brown fox\<close> is English.
\<close>

theorem fallback_language_rule:
  "meta_get (get_fallback_metadata L post) k_language =
     Some (JStr (if 3 < card {w \<in> set french_words. sublist w (lower L post)}
                 then French else English))
   \<and> meta_get (get_fallback_metadata L (py ''le la les de du des et est une un ce cette''))
       k_language = Some (JStr French)
   \<and> meta_get (get_fallback_metadata L (py ''the quick brown fox'')) k_language
       = Some (JStr English)"
  by (simp add: fallback_language french_count_card [symmetric] lower_twelve lower_fox
      french_count_twelve french_count_fox)

theorem fallback_language_rule_witness:
  "meta_get (get_fallback_metadata (\<lambda>s. s) (py ''the quick brown fox'')) k_language
     = Some (JStr English)"
  using fallback_language_rule [of "\<lambda>s. s" "py ''the quick brown fox''"] by blast

text \<open>
  The claim C6 as it is stated fails on \<open>le le le le\<close>: the word \<open>le\<close> occurs four times,
  as a word and as a substring, which is more than three, and the code answers English,
  because it counts \<open>le\<close> once.
\<close>

theorem fallback_language_counterexample:
  "spec_language (\<lambda>s. s) (py ''le le le le'') = French
   \<and> sum_list (map (\<lambda>w. occurrences w (lower (\<lambda>s. s) (py ''le le le le''))) french_words) = 4
   \<and> meta_get (get_fallback_metadata (\<lambda>s. s) (py ''le le le le'')) k_language
       = Some (JStr English)
   \<and> English \<noteq> French"
proof -
  have low: "lower (\<lambda>s. s) (py ''le le le le'') = py ''le le le le''"
    by (simp add: lower_def py_def ascii_lower_def)
  have tok: "tokenize [] (py ''le le le le'') = [py ''le'', py ''le'', py ''le'', py ''le'']"
    by (simp add: py_def isspace_def)
  have a: "spec_language (\<lambda>s. s) (py ''le le le le'') = French"
    by (simp add: spec_language_def spec_french_count_def low tok french_words_def)
  have b: "sum_list (map (\<lambda>w. occurrences w (py ''le le le le'')) french_words) = 4"
    by (simp add: french_words_def py_def)
  have c: "french_count (py ''le le le le'') = 1"
    by (simp add: french_count_def french_words_def py_def sublist_code)
  have d: "English \<noteq> French" by (simp add: English_def French_def py_def)
  from a b c d show ?thesis by (simp add: fallback_language low)
qed

section \<open>Properties of the matcher\<close>

lemma map_groups_id: "map (\<lambda>(s2, g2). (s2, [] @ g2)) xs = xs"
  by (induction xs) auto

lemma mem_Cat:
  "(s2, g) \<in> set (rx_run (Cat a b) s) \<longleftrightarrow>
     (\<exists>s1 g1 g2. (s1, g1) \<in> set (rx_run a s) \<and> (s2, g2) \<in> set (rx_run b s1) \<and> g = g1 @ g2)"
  by (subst rx_run.simps) force

lemma mem_Chr:
  "(s1, g) \<in> set (rx_run (Chr P) s) \<longleftrightarrow> (\<exists>c. s = c # s1 \<and> P c \<and> g = [])"
  by (subst rx_run.simps) (auto split: list.splits)

lemma mem_Opt:
  "(s1, g) \<in> set (rx_run (Opt a) s) \<longleftrightarrow> (s1, g) \<in> set (rx_run a s) \<or> (s1 = s \<and> g = [])"
  by (subst rx_run.simps) auto

lemma mem_Star:
  "(s1, g) \<in> set (rx_run (Star a) s) \<longleftrightarrow>
     (s1 = s \<and> g = []) \<or>
     (\<exists>s0 g0. (s0, g0) \<in> set (rx_run a s) \<and> length s0 < length s
        \<and> (s1, g) \<in> set (rx_run (Star a) s0))"
  by (subst rx_run.simps) (force split: if_splits)

lemma mem_Lazy:
  "(s1, g) \<in> set (rx_run (Lazy a) s) \<longleftrightarrow>
     (s1 = s \<and> g = []) \<or>
     (\<exists>s0 g0. (s0, g0) \<in> set (rx_run a s) \<and> length s0 < length s
        \<and> (s1, g) \<in> set (rx_run (Lazy a) s0))"
  by (subst rx_run.simps) (force split: if_splits)

lemma mem_Grp:
  "(s1, g) \<in> set (rx_run (Grp a) s) \<longleftrightarrow>
     (\<exists>g1. (s1, g1) \<in> set (rx_run a s) \<and> g = take (length s - length s1) s # g1)"
  by (subst rx_run.simps) force

lemma rx_run_suffix: "(s1, g) \<in> set (rx_run r s) \<Longrightarrow> suffix s1 s"
proof (induction r s arbitrary: s1 g rule: rx_run.induct)
  case (1 s)
  then show ?case by (simp add: rx_run.simps)
next
  case (2 P s)
  then show ?case by (auto simp: mem_Chr suffix_ConsI)
next
  case (3 a b s)
  from "3.prems" obtain s0 g0 g1 where a: "(s0, g0) \<in> set (rx_run a s)"
    and b: "(s1, g1) \<in> set (rx_run b s0)" unfolding mem_Cat by blast
  from "3.IH"(1) [OF a] have "suffix s0 s" .
  moreover from "3.IH"(2) [OF a refl b] have "suffix s1 s0" .
  ultimately show ?case by (rule suffix_order.trans [rotated])
next
  case (4 a s)
  then show ?case unfolding mem_Opt by auto
next
  case (5 a s)
  from "5.prems" consider "s1 = s" |
    s0 g0 where "(s0, g0) \<in> set (rx_run a s)" "length s0 < length s"
      "(s1, g) \<in> set (rx_run (Star a) s0)"
    by (subst (asm) mem_Star) blast
  then show ?case
  proof cases
    case 1
    then show ?thesis by simp
  next
    case 2
    from "5.IH"(1) [OF 2(1)] have "suffix s0 s" .
    moreover from "5.IH"(2) [OF 2(1) refl 2(2) 2(3)] have "suffix s1 s0" .
    ultimately show ?thesis by (rule suffix_order.trans [rotated])
  qed
next
  case (6 a s)
  from "6.prems" consider "s1 = s" |
    s0 g0 where "(s0, g0) \<in> set (rx_run a s)" "length s0 < length s"
      "(s1, g) \<in> set (rx_run (Lazy a) s0)"
    by (subst (asm) mem_Lazy) blast
  then show ?case
  proof cases
    case 1
    then show ?thesis by simp
  next
    case 2
    from "6.IH"(1) [OF 2(1)] have "suffix s0 s" .
    moreover from "6.IH"(2) [OF 2(1) refl 2(2) 2(3)] have "suffix s1 s0" .
    ultimately show ?thesis by (rule suffix_order.trans [rotated])
  qed
next
  case (7 a s)
  then show ?case unfolding mem_Grp by auto
qed

lemma rx_run_groups_free:
  "grp_free r \<Longrightarrow> (s1, g) \<in> set (rx_run r s) \<Longrightarrow> g = []"
proof (induction r s arbitrary: s1 g rule: rx_run.induct)
  case (1 s)
  then show ?case by (simp add: rx_run.simps)
next
  case (2 P s)
  then show ?case by (auto simp: mem_Chr)
next
  case (3 a b s)
  from "3.prems"(2) obtain s0 g0 g1 where a: "(s0, g0) \<in> set (rx_run a s)"
    and b: "(s1, g1) \<in> set (rx_run b s0)" and g: "g = g0 @ g1" unfolding mem_Cat by blast
  from "3.prems"(1) have fa: "grp_free a" and fb: "grp_free b" by simp_all
  from "3.IH"(1) [OF fa a] "3.IH"(2) [OF a refl fb b] g show ?case by simp
next
  case (4 a s)
  then show ?case unfolding mem_Opt by auto
next
  case (5 a s)
  from "5.prems"(2) consider "g = []" |
    s0 g0 where "(s0, g0) \<in> set (rx_run a s)" "length s0 < length s"
      "(s1, g) \<in> set (rx_run (Star a) s0)"
    by (subst (asm) mem_Star) blast
  then show ?case
  proof cases
    case 2
    from "5.IH"(2) [OF 2(1) refl 2(2) "5.prems"(1) 2(3)] show ?thesis .
  qed
next
  case (6 a s)
  from "6.prems"(2) consider "g = []" |
    s0 g0 where "(s0, g0) \<in> set (rx_run a s)" "length s0 < length s"
      "(s1, g) \<in> set (rx_run (Lazy a) s0)"
    by (subst (asm) mem_Lazy) blast
  then show ?case
  proof cases
    case 2
    from "6.IH"(2) [OF 2(1) refl 2(2) "6.prems"(1) 2(3)] show ?thesis .
  qed
next
  case (7 a s)
  then show ?case by simp
qed

lemma rx_run_Cat_Chr:
  "rx_run (Cat (Chr P) b) s = (case s of [] \<Rightarrow> [] | c # t \<Rightarrow> if P c then rx_run b t else [])"
  by (cases s) (simp_all add: rx_run.simps(2,3) map_groups_id)

lemma lit_Cons: "lit (c # w) = Cat (Chr (\<lambda>x. x = c)) (lit w)"
  by (simp add: lit_def)

lemma rx_run_lit:
  "rx_run (lit w) s = (if prefix w s then [(drop (length w) s, [])] else [])"
proof (induction w arbitrary: s)
  case Nil
  then show ?case by (simp add: lit_def rx_run.simps(1))
next
  case (Cons c w)
  show ?case
    by (cases s) (auto simp: lit_Cons rx_run_Cat_Chr Cons)
qed

lemma rx_run_Cat_lit:
  "rx_run (Cat (lit w) b) s = (if prefix w s then rx_run b (drop (length w) s) else [])"
  by (simp add: rx_run.simps(3) rx_run_lit map_groups_id)

section \<open>Properties of the JSON decoder\<close>

text \<open>
  The bound on the calls that \<open>json_loads\<close> starts with is never used up: a value that
  the scanner returns has read a character, and with it the remaining input gets
  shorter along every chain of calls.
\<close>

lemma scanstring_shorter:
  "scanstring b acc s = Inr (str, r) \<Longrightarrow> length r < length s"
proof (induction b acc s arbitrary: str r rule: scanstring.induct)
  case (1 b acc)
  then show ?case by simp
next
  case (2 b acc c s)
  show ?case
  proof (cases "c = 34")
    case True
    with "2.prems" show ?thesis by simp
  next
    case c34: False
    show ?thesis
    proof (cases "c = 92")
      case False
      with c34 "2.prems" have "c > 31" and "scanstring b (acc @ [c]) s = Inr (str, r)"
        by (simp_all split: if_splits)
      with "2.IH"(5) [OF c34 False] show ?thesis by fastforce
    next
      case True
      with c34 "2.prems" obtain e s1 where s: "s = e # s1"
        by (cases s) simp_all
      show ?thesis
      proof (cases "e = 117")
        case False
        with c34 True s "2.prems" obtain ch where ch: "backslash e = Some ch"
          and rec: "scanstring b (acc @ [ch]) s1 = Inr (str, r)"
          by (cases "backslash e") simp_all
        from "2.IH"(1) [OF c34 True s False ch rec] s show ?thesis by simp
      next
        case u: True
        with c34 True s "2.prems" have len: "\<not> length s1 \<le> 4"
          by (simp split: if_splits)
        with c34 True s u "2.prems" obtain x where x: "hex4 (take 4 s1) = Some x"
          by (cases "hex4 (take 4 s1)") simp_all
        let ?s2 = "drop 4 s1"
        show ?thesis
        proof (cases "55296 \<le> x \<and> x \<le> 56319 \<and> length ?s2 > 6 \<and> take 2 ?s2 = [92, 117]")
          case False
          with c34 True s u len x "2.prems"
          have rec: "scanstring b (acc @ [x]) ?s2 = Inr (str, r)"
            by (auto simp: Let_def split: if_splits)
          from "2.IH"(4) [OF c34 True s _ len x refl False rec] u s show ?thesis by simp
        next
          case pair: True
          with c34 True s u len x "2.prems"
          obtain u2 where u2: "hex4 (take 4 (drop 2 ?s2)) = Some u2"
            by (cases "hex4 (take 4 (drop 2 ?s2))") (simp_all add: Let_def)
          show ?thesis
          proof (cases "56320 \<le> u2 \<and> u2 \<le> 57343")
            case low: True
            with c34 True s u len x pair u2 "2.prems"
            have rec: "scanstring b (acc @ [65536 + (x - 55296) * 1024 + (u2 - 56320)])
                (drop 6 ?s2) = Inr (str, r)"
              by (simp add: Let_def)
            from "2.IH"(2) [OF c34 True s _ len x refl pair u2 low rec] u s
            show ?thesis by simp
          next
            case low: False
            with c34 True s u len x pair u2 "2.prems"
            have rec: "scanstring b (acc @ [x]) ?s2 = Inr (str, r)"
              by (simp add: Let_def)
            from "2.IH"(3) [OF c34 True s _ len x refl pair u2 low rec] u s
            show ?thesis by simp
          qed
        qed
      qed
    qed
  qed
qed

lemma number_tail_shorter:
  "number_tail s r = Inr (v, r') \<Longrightarrow> length r' \<le> length r"
proof -
  assume a: "number_tail s r = Inr (v, r')"
  define r1 where "r1 = (case r of
      c # d # t \<Rightarrow> if c = 46 \<and> is_digit d then dropWhile is_digit (d # t) else r
    | _ \<Rightarrow> r)"
  define r2 where "r2 = (case r1 of
      c # t \<Rightarrow>
        if c = 101 \<or> c = 69 then
          (let t1 = (case t of g # u \<Rightarrow> if g = 43 \<or> g = 45 then u else t | [] \<Rightarrow> t)
           in (case t1 of
                 d # _ \<Rightarrow> if is_digit d then dropWhile is_digit t1 else r1
               | [] \<Rightarrow> r1))
        else r1
    | [] \<Rightarrow> r1)"
  have d: "length (dropWhile is_digit xs) \<le> length xs" for xs :: pystr
    by (rule length_dropWhile_le)
  have 1: "length r1 \<le> length r"
    unfolding r1_def using d by (auto split: list.splits intro: le_SucI)
  have 2: "length r2 \<le> length r1"
  proof (cases r1)
    case Nil
    then show ?thesis by (simp add: r2_def)
  next
    case (Cons c t)
    show ?thesis
    proof (cases "c = 101 \<or> c = 69")
      case False
      with Cons show ?thesis by (simp add: r2_def)
    next
      case True
      define t1 where "t1 = (case t of g # u \<Rightarrow> if g = 43 \<or> g = 45 then u else t | [] \<Rightarrow> t)"
      have t1: "length t1 \<le> length t" unfolding t1_def by (auto split: list.splits)
      have "r2 = (case t1 of d # _ \<Rightarrow> if is_digit d then dropWhile is_digit t1 else r1 | [] \<Rightarrow> r1)"
        unfolding r2_def t1_def using Cons True by (simp add: Let_def)
      moreover have "length (dropWhile is_digit t1) \<le> length r1"
        using d [of t1] t1 Cons by simp
      ultimately show ?thesis by (auto split: list.splits)
    qed
  qed
  from a have "r' = r2"
    by (auto simp: number_tail_def r1_def [symmetric] r2_def [symmetric] Let_def
        split: if_splits list.splits)
  with 1 2 show ?thesis by simp
qed

lemma match_number_shorter:
  "match_number s = Inr (v, r) \<Longrightarrow> length r < length s"
proof -
  assume a: "match_number s = Inr (v, r)"
  define s1 where "s1 = (case s of c # t \<Rightarrow> if c = 45 then t else s | [] \<Rightarrow> s)"
  have s1: "length s1 \<le> length s" unfolding s1_def by (auto split: list.splits)
  from a obtain d t where c: "s1 = d # t"
    by (cases s1) (simp_all add: match_number_def s1_def [symmetric] Let_def)
  show ?thesis
  proof (cases "49 \<le> d \<and> d \<le> 57")
    case True
    with a c have "number_tail s (dropWhile is_digit s1) = Inr (v, r)"
      by (simp add: match_number_def s1_def [symmetric] Let_def)
    from number_tail_shorter [OF this] have "length r \<le> length (dropWhile is_digit s1)" .
    moreover have "is_digit d" using True by (simp add: is_digit_def)
    then have "length (dropWhile is_digit s1) \<le> length t"
      using c by (simp add: length_dropWhile_le)
    ultimately show ?thesis using s1 c by simp
  next
    case False
    with a c have "d = 48" and "number_tail s t = Inr (v, r)"
      by (simp_all add: match_number_def s1_def [symmetric] Let_def split: if_splits)
    from number_tail_shorter [OF this(2)] s1 c show ?thesis by simp
  qed
qed

lemma skip_ws_length: "length (skip_ws s) \<le> length s"
  by (simp add: skip_ws_def length_dropWhile_le)

lemma scanstring_not_bound: "scanstring b acc s \<noteq> Inl Bound"
  by (induction b acc s rule: scanstring.induct)
    (auto simp: Let_def split: list.splits option.splits)

lemma number_tail_not_bound: "number_tail s r \<noteq> Inl Bound"
  by (auto simp: number_tail_def Let_def split: list.splits if_splits)

lemma match_number_not_bound: "match_number s \<noteq> Inl Bound"
  by (auto simp: match_number_def Let_def number_tail_not_bound split: list.splits)

lemma scanner_bound:
  "(\<forall>depth s. (2 * length s + 1 \<le> n \<longrightarrow> scan_once n depth s \<noteq> Inl Bound)
        \<and> (\<forall>v r. scan_once n depth s = Inr (v, r) \<longrightarrow> length r < length s))
   \<and> (\<forall>depth pairs s.
        (2 * length s + 2 \<le> n \<longrightarrow> parse_object_loop n depth pairs s \<noteq> Inl Bound)
        \<and> (\<forall>v r. parse_object_loop n depth pairs s = Inr (v, r) \<longrightarrow> length r < length s))
   \<and> (\<forall>depth vals s.
        (2 * length s + 2 \<le> n \<longrightarrow> parse_array_loop n depth vals s \<noteq> Inl Bound)
        \<and> (\<forall>v r. parse_array_loop n depth vals s = Inr (v, r) \<longrightarrow> length r < length s))"
proof (induction n)
  case 0
  show ?case by simp
next
  case (Suc n)
  then have so_deep: "2 * length s + 1 \<le> n \<Longrightarrow> scan_once n depth s \<noteq> Inl Bound"
    and so_len: "scan_once n depth s = Inr (v, r) \<Longrightarrow> length r < length s"
    and ol_deep: "2 * length s + 2 \<le> n \<Longrightarrow> parse_object_loop n depth pairs s \<noteq> Inl Bound"
    and ol_len: "parse_object_loop n depth pairs s = Inr (v, r) \<Longrightarrow> length r < length s"
    and al_deep: "2 * length s + 2 \<le> n \<Longrightarrow> parse_array_loop n depth vals s \<noteq> Inl Bound"
    and al_len: "parse_array_loop n depth vals s = Inr (v, r) \<Longrightarrow> length r < length s"
    for s v r pairs vals depth
    by blast+
  have ws: "length (skip_ws t) \<le> length t" for t by (rule skip_ws_length)
  have ws_cons: "skip_ws t = x # r \<Longrightarrow> Suc (length r) \<le> length t" for t x r
    using skip_ws_length [of t] by simp
  have scan_deep: "scan_once (Suc n) depth s \<noteq> Inl Bound" if b: "2 * length s + 1 \<le> Suc n"
    for s depth
  proof (cases s)
    case Nil
    then show ?thesis by simp
  next
    case (Cons c t)
    show ?thesis
    proof (cases "c = 34")
      case True
      with Cons show ?thesis
        using scanstring_not_bound [of "length s" "[]" t]
        by (auto split: sum.splits)
    next
      case c34: False
      show ?thesis
      proof (cases "c = 123")
        case True
        show ?thesis
        proof (cases "skip_ws t")
          case Nil
          have "parse_object_loop n (depth - 1) [] [] \<noteq> Inl Bound"
            using b Cons by (intro ol_deep) simp
          with Cons True Nil show ?thesis by simp
        next
          case (Cons x r)
          have "parse_object_loop n (depth - 1) [] (x # r) \<noteq> Inl Bound"
            using b \<open>s = c # t\<close> ws_cons [OF Cons] by (intro ol_deep) simp
          with \<open>s = c # t\<close> True Cons show ?thesis by simp
        qed
      next
        case c123: False
        show ?thesis
        proof (cases "c = 91")
          case True
          show ?thesis
          proof (cases "skip_ws t")
            case Nil
            have "parse_array_loop n (depth - 1) [] [] \<noteq> Inl Bound"
              using b Cons by (intro al_deep) simp
            with Cons True Nil show ?thesis by simp
          next
            case (Cons x r)
            have "parse_array_loop n (depth - 1) [] (x # r) \<noteq> Inl Bound"
              using b \<open>s = c # t\<close> ws_cons [OF Cons] by (intro al_deep) simp
            with \<open>s = c # t\<close> True Cons show ?thesis by simp
          qed
        next
          case False
          with Cons c34 c123 show ?thesis
            using match_number_not_bound [of s] by simp
        qed
      qed
    qed
  qed
  have scan_len: "length r < length s" if a: "scan_once (Suc n) depth s = Inr (v, r)"
    for s v r depth
  proof (cases s)
    case Nil
    with a show ?thesis by simp
  next
    case (Cons c t)
    show ?thesis
    proof (cases "c = 34")
      case True
      with Cons a obtain str where "scanstring (length s) [] t = Inr (str, r)"
        by (auto split: sum.splits)
      from scanstring_shorter [OF this] Cons show ?thesis by simp
    next
      case c34: False
      show ?thesis
      proof (cases "c = 123")
        case True
        show ?thesis
        proof (cases "skip_ws t")
          case Nil
          with Cons True a have "parse_object_loop n (depth - 1) [] [] = Inr (v, r)"
            by (simp split: if_splits)
          from ol_len [OF this] show ?thesis by simp
        next
          case (Cons x r')
          show ?thesis
          proof (cases "x = 125")
            case True
            with \<open>s = c # t\<close> \<open>c = 123\<close> Cons a have "r = r'" by (simp split: if_splits)
            with ws_cons [OF Cons] \<open>s = c # t\<close> show ?thesis by simp
          next
            case False
            with \<open>s = c # t\<close> \<open>c = 123\<close> Cons a
            have "parse_object_loop n (depth - 1) [] (x # r') = Inr (v, r)"
              by (simp split: if_splits)
            from ol_len [OF this] ws_cons [OF Cons] \<open>s = c # t\<close> show ?thesis by simp
          qed
        qed
      next
        case c123: False
        show ?thesis
        proof (cases "c = 91")
          case True
          show ?thesis
          proof (cases "skip_ws t")
            case Nil
            with Cons True a have "parse_array_loop n (depth - 1) [] [] = Inr (v, r)"
              by (simp split: if_splits)
            from al_len [OF this] show ?thesis by simp
          next
            case (Cons x r')
            show ?thesis
            proof (cases "x = 93")
              case True
              with \<open>s = c # t\<close> \<open>c = 91\<close> Cons a have "r = r'" by (simp split: if_splits)
              with ws_cons [OF Cons] \<open>s = c # t\<close> show ?thesis by simp
            next
              case False
              with \<open>s = c # t\<close> \<open>c = 91\<close> Cons a
              have "parse_array_loop n (depth - 1) [] (x # r') = Inr (v, r)"
                by (simp split: if_splits)
              from al_len [OF this] ws_cons [OF Cons] \<open>s = c # t\<close> show ?thesis by simp
            qed
          qed
        next
          case False
          with Cons c34 c123 a
          have "(\<exists>k > 0. r = drop k s) \<or> match_number s = Inr (v, r)"
            by (auto split: if_splits)
          then show ?thesis
          proof
            assume "\<exists>k > 0. r = drop k s"
            with Cons show ?thesis by auto
          next
            assume "match_number s = Inr (v, r)"
            then show ?thesis by (rule match_number_shorter)
          qed
        qed
      qed
    qed
  qed
  have obj: "(2 * length s + 2 \<le> Suc n \<longrightarrow> parse_object_loop (Suc n) depth pairs s \<noteq> Inl Bound)
      \<and> (\<forall>v r. parse_object_loop (Suc n) depth pairs s = Inr (v, r) \<longrightarrow> length r < length s)"
    for pairs s depth
  proof (cases s)
    case Nil
    then show ?thesis by simp
  next
    case (Cons q s1)
    show ?thesis
    proof (cases "q = 34")
      case False
      with Cons show ?thesis by simp
    next
      case True
      show ?thesis
      proof (cases "scanstring (length s) [] s1")
        case (Inl e)
        with Cons True scanstring_not_bound [of "length s" "[]" s1] show ?thesis by simp
      next
        case (Inr kr)
        then obtain key s2 where k: "scanstring (length s) [] s1 = Inr (key, s2)"
          by (cases kr) simp
        from scanstring_shorter [OF k] have l2: "length s2 < length s1" .
        show ?thesis
        proof (cases "skip_ws s2")
          case Nil
          with Cons True k show ?thesis by simp
        next
          case c3: (Cons c3 s4)
          from ws_cons [OF c3] have l4: "Suc (length s4) \<le> length s2" .
          show ?thesis
          proof (cases "c3 = 58")
            case False
            with Cons True k c3 show ?thesis by simp
          next
            case colon: True
            have l5: "length (skip_ws s4) \<le> length s4" by (rule ws)
            show ?thesis
            proof (cases "scan_once n depth (skip_ws s4)")
              case (Inl e)
              have "2 * length s + 2 \<le> Suc n \<Longrightarrow> e \<noteq> Bound"
                using so_deep [of "skip_ws s4" depth] Inl l5 l4 l2 Cons by auto
              with Cons True k c3 colon Inl show ?thesis by auto
            next
              case (Inr vr)
              then obtain v5 s5 where v: "scan_once n depth (skip_ws s4) = Inr (v5, s5)"
                by (cases vr) simp
              from so_len [OF v] have l6: "length s5 < length (skip_ws s4)" .
              show ?thesis
              proof (cases "skip_ws s5")
                case Nil
                with Cons True k c3 colon v show ?thesis by simp
              next
                case c6: (Cons c6 s7)
                from ws_cons [OF c6] have l7: "Suc (length s7) \<le> length s5" .
                have l8: "length (skip_ws s7) \<le> length s7" by (rule ws)
                have eq: "parse_object_loop (Suc n) depth pairs s =
                    (if c6 = 125 then Inr (JObj (dict_merge [] (pairs @ [(key, v5)])), s7)
                     else if c6 = 44
                     then parse_object_loop n depth (pairs @ [(key, v5)]) (skip_ws s7)
                     else Inl (Fail (py ''Expecting '' @ [39, 44, 39] @ py '' delimiter'')
                                 (length (c6 # s7))))"
                  using Cons True k c3 colon v c6 by simp
                have deep: "2 * length s + 2 \<le> Suc n \<Longrightarrow>
                    parse_object_loop n depth (pairs @ [(key, v5)]) (skip_ws s7) \<noteq> Inl Bound"
                  using l2 l4 l5 l6 l7 l8 Cons by (intro ol_deep) simp
                have len: "parse_object_loop n depth (pairs @ [(key, v5)]) (skip_ws s7) = Inr (v, r)
                    \<Longrightarrow> length r < length s" for v r
                  using ol_len [of depth "pairs @ [(key, v5)]" "skip_ws s7" v r]
                    l2 l4 l5 l6 l7 l8 Cons by simp
                have l9: "length s7 < length s" using l2 l4 l5 l6 l7 Cons by simp
                from eq deep len l9 show ?thesis by (auto split: if_splits)
              qed
            qed
          qed
        qed
      qed
    qed
  qed
  have arr: "(2 * length s + 2 \<le> Suc n \<longrightarrow> parse_array_loop (Suc n) depth vals s \<noteq> Inl Bound)
      \<and> (\<forall>v r. parse_array_loop (Suc n) depth vals s = Inr (v, r) \<longrightarrow> length r < length s)"
    for vals s depth
  proof (cases "scan_once n depth s")
    case (Inl e)
    have "2 * length s + 2 \<le> Suc n \<Longrightarrow> e \<noteq> Bound"
      using so_deep [of s depth] Inl by auto
    with Inl show ?thesis by auto
  next
    case (Inr vr)
    then obtain v1 r1 where v: "scan_once n depth s = Inr (v1, r1)" by (cases vr) simp
    from so_len [OF v] have l1: "length r1 < length s" .
    show ?thesis
    proof (cases "skip_ws r1")
      case Nil
      with v show ?thesis by simp
    next
      case (Cons c t)
      from ws_cons [OF Cons] have l2: "Suc (length t) \<le> length r1" .
      have l3: "length (skip_ws t) \<le> length t" by (rule ws)
      have eq: "parse_array_loop (Suc n) depth vals s =
          (if c = 93 then Inr (JArr (vals @ [v1]), t)
           else if c = 44 then parse_array_loop n depth (vals @ [v1]) (skip_ws t)
           else Inl (Fail (py ''Expecting '' @ [39, 44, 39] @ py '' delimiter'') (length (c # t))))"
        using v Cons by simp
      have deep: "2 * length s + 2 \<le> Suc n \<Longrightarrow>
          parse_array_loop n depth (vals @ [v1]) (skip_ws t) \<noteq> Inl Bound"
        using l1 l2 l3 by (intro al_deep) simp
      have len: "parse_array_loop n depth (vals @ [v1]) (skip_ws t) = Inr (v, r)
          \<Longrightarrow> length r < length s" for v r
        using al_len [of depth "vals @ [v1]" "skip_ws t" v r] l1 l2 l3 by simp
      have l4: "length t < length s" using l1 l2 by simp
      from eq deep len l4 show ?thesis by (auto split: if_splits)
    qed
  qed
  from scan_deep scan_len obj arr show ?case by blast
qed

lemma json_loads_bound:
  "scan_once (Suc (Suc (length doc + length doc))) depth (skip_ws doc) \<noteq> Inl Bound"
proof -
  have "2 * length (skip_ws doc) + 1 \<le> Suc (Suc (length doc + length doc))"
    using skip_ws_length [of doc] by simp
  with scanner_bound [of "Suc (Suc (length doc + length doc))"] show ?thesis by blast
qed

text \<open>
  What \<open>json_loads\<close> raises is a \<open>JSONDecodeError\<close>, or the \<open>RecursionError\<close> of an object
  or an array nested too deep.
\<close>

lemma json_loads_raises:
  assumes "json_loads depth doc = Inl e"
  shows "kind e = JSONDecodeError
     \<or> (\<exists>what. e = Exn RecursionError
           (py ''maximum recursion depth exceeded while decoding a JSON '' @ what
              @ py '' from a unicode string''))"
proof -
  have k: "kind (json_error m d p) = JSONDecodeError" for m d p
    by (simp add: json_error_def Let_def)
  show ?thesis
  proof (cases "prefix [65279] doc")
    case True
    with assms have "e = json_error (py ''Unexpected UTF-8 BOM (decode using utf-8-sig)'') doc 0"
      by (simp add: json_loads_def)
    with k show ?thesis by simp
  next
    case False
    show ?thesis
    proof (cases "scan_once (Suc (Suc (length doc + length doc))) depth (skip_ws doc)")
      case (Inl err)
      with json_loads_bound [of doc depth] have b: "err \<noteq> Bound" by auto
      show ?thesis
      proof (cases err)
        case (Stop r)
        with assms False Inl have "\<exists>m p. e = json_error m doc p"
          by (auto simp: json_loads_def)
        with k show ?thesis by auto
      next
        case (Fail m r)
        with assms False Inl have "\<exists>m p. e = json_error m doc p"
          by (auto simp: json_loads_def)
        with k show ?thesis by auto
      next
        case (Deep what)
        with assms False Inl show ?thesis by (auto simp: json_loads_def)
      next
        case Bound
        with b show ?thesis by simp
      qed
    next
      case (Inr vr)
      obtain v rest where "vr = (v, rest)" by (cases vr)
      with assms False Inr have "\<exists>m p. e = json_error m doc p"
        by (cases "skip_ws rest") (auto simp: json_loads_def)
      with k show ?thesis by auto
    qed
  qed
qed

text \<open>
  A document that nests four arrays in an object and ends there: the decoder reports the
  value missing at the closing brace. With fewer than five levels left it reports the
  array that is nested too deep.
  \<^verbatim>\<open>{"":[[[[}\<close>
\<close>

lemma loads_nested_arrays:
  "json_loads 5 (py ''{'' @ [34, 34] @ py '':[[[[}'')
     = Inl (Exn JSONDecodeError (py ''Expecting value: line 1 column 9 (char 8)''))"
  by (simp add: json_loads_def py_def skip_ws_def json_ws_def match_number_def json_error_def
      str_nat.simps Let_def)

lemma loads_nested_too_deep:
  "json_loads 4 (py ''{'' @ [34, 34] @ py '':[[[[}'')
     = Inl (Exn RecursionError
         (py ''maximum recursion depth exceeded while decoding a JSON array from a unicode string''))"
  by (simp add: json_loads_def py_def skip_ws_def json_ws_def)

section \<open>Properties of the Response Parser\<close>

lemma strip_braced: "braced w \<Longrightarrow> strip w = w"
proof -
  assume b: "braced w"
  then have 1: "dropWhile isspace w = w"
    by (simp add: braced_def dropWhile_eq_self_iff isspace_def)
  from b have "rev w \<noteq> []" "\<not> isspace (hd (rev w))"
    by (simp_all add: braced_def hd_rev isspace_def)
  then have "dropWhile isspace (rev w) = rev w"
    by (simp add: dropWhile_eq_self_iff)
  with 1 show ?thesis by (simp add: strip_def)
qed

lemma consumed_braced:
  "s = c # u @ d # s1 \<Longrightarrow> c = 123 \<Longrightarrow> d = 125 \<Longrightarrow> braced (take (length s - length s1) s)"
proof -
  assume s: "s = c # u @ d # s1" and c: "c = 123" and d: "d = 125"
  have "s = (c # u @ [d]) @ s1" using s by simp
  then have "take (length s - length s1) s = c # u @ [d]" by simp
  with c d show ?thesis by (simp add: braced_def)
qed

lemma ends_Chr:
  "(s1, g) \<in> set (rx_run (Cat m (Chr Q)) t) \<Longrightarrow> \<exists>u d. t = u @ d # s1 \<and> Q d"
proof -
  assume "(s1, g) \<in> set (rx_run (Cat m (Chr Q)) t)"
  then obtain s0 g0 g1 where m: "(s0, g0) \<in> set (rx_run m t)"
    and q: "(s1, g1) \<in> set (rx_run (Chr Q) s0)" unfolding mem_Cat by blast
  from q obtain d where d: "s0 = d # s1" "Q d" unfolding mem_Chr by blast
  from rx_run_suffix [OF m] obtain u where "t = u @ s0" by (auto simp: suffix_def)
  with d show ?thesis by blast
qed

lemma ends_Cat:
  assumes "\<And>t s1 g. (s1, g) \<in> set (rx_run b t) \<Longrightarrow> \<exists>u d. t = u @ d # s1 \<and> Q d"
    and "(s1, g) \<in> set (rx_run (Cat a b) t)"
  shows "\<exists>u d. t = u @ d # s1 \<and> Q d"
proof -
  from assms(2) obtain s0 g0 g1 where a: "(s0, g0) \<in> set (rx_run a t)"
    and b: "(s1, g1) \<in> set (rx_run b s0)" unfolding mem_Cat by blast
  from assms(1) [OF b] obtain u d where u: "s0 = u @ d # s1" "Q d" by blast
  from rx_run_suffix [OF a] obtain v where "t = v @ s0" by (auto simp: suffix_def)
  with u have "t = (v @ u) @ d # s1" by simp
  with u(2) show ?thesis by blast
qed

lemma starts_ends:
  assumes "\<And>t s1 g. (s1, g) \<in> set (rx_run b t) \<Longrightarrow> \<exists>u d. t = u @ d # s1 \<and> d = 125"
    and "(s1, g) \<in> set (rx_run (Cat (Chr (\<lambda>x. x = 123)) b) s)"
  shows "braced (take (length s - length s1) s) \<and> length s1 < length s"
proof -
  from assms(2) obtain s0 g0 g1 where a: "(s0, g0) \<in> set (rx_run (Chr (\<lambda>x. x = 123)) s)"
    and b: "(s1, g1) \<in> set (rx_run b s0)" unfolding mem_Cat by blast
  from a have s: "s = 123 # s0" unfolding mem_Chr by blast
  from assms(1) [OF b] obtain u where "s0 = u @ 125 # s1" by blast
  with s have eq: "s = 123 # u @ 125 # s1" by simp
  from consumed_braced [OF eq] eq show ?thesis by simp
qed

lemma grp_free_lit: "grp_free (lit w)"
  by (induction w) (simp_all add: lit_def)

lemma grp_free_ilit: "grp_free (ilit w)"
  by (induction w) (simp_all add: ilit_def ichr_def)

lemma block_groups:
  assumes "(s1, gs) \<in> set (rx_run json_block_pattern s)"
  shows "\<exists>w. gs = [w] \<and> braced w"
proof -
  let ?G = "Cat (Chr (\<lambda>x. x = 123)) (Cat (Lazy (Chr (\<lambda>x. True))) (Chr (\<lambda>x. x = 125)))"
  let ?tail = "Cat (Star (Chr isspace)) (lit (py ''```''))"
  from assms obtain a1 g1 h1 where 1: "(a1, g1) \<in> set (rx_run (lit (py ''```'')) s)"
    and r1: "(s1, h1) \<in> set (rx_run (Cat (Opt (ilit (py ''json'')))
        (Cat (Star (Chr isspace)) (Cat (Grp ?G) ?tail))) a1)" and e1: "gs = g1 @ h1"
    unfolding json_block_pattern_def mem_Cat [of s1 gs] by blast
  from r1 obtain a2 g2 h2 where 2: "(a2, g2) \<in> set (rx_run (Opt (ilit (py ''json''))) a1)"
    and r2: "(s1, h2) \<in> set (rx_run (Cat (Star (Chr isspace)) (Cat (Grp ?G) ?tail)) a2)"
    and e2: "h1 = g2 @ h2"
    unfolding mem_Cat [of s1 h1] by blast
  from r2 obtain a3 g3 h3 where 3: "(a3, g3) \<in> set (rx_run (Star (Chr isspace)) a2)"
    and r3: "(s1, h3) \<in> set (rx_run (Cat (Grp ?G) ?tail) a3)" and e3: "h2 = g3 @ h3"
    unfolding mem_Cat [of s1 h2] by blast
  from r3 obtain a4 g4 h4 where 4: "(a4, g4) \<in> set (rx_run (Grp ?G) a3)"
    and r4: "(s1, h4) \<in> set (rx_run ?tail a4)" and e4: "h3 = g4 @ h4"
    unfolding mem_Cat [of s1 h3] by blast
  have f1: "g1 = []" using rx_run_groups_free [OF _ 1] by (simp add: grp_free_lit)
  have f2: "g2 = []" using rx_run_groups_free [OF _ 2] by (simp add: grp_free_ilit)
  have f3: "g3 = []" using rx_run_groups_free [OF _ 3] by simp
  have f5: "h4 = []" using rx_run_groups_free [OF _ r4] by (simp add: grp_free_lit)
  from 4 obtain k where k: "(a4, k) \<in> set (rx_run ?G a3)"
    and g4: "g4 = take (length a3 - length a4) a3 # k" unfolding mem_Grp by blast
  have k0: "k = []" using rx_run_groups_free [OF _ k] by simp
  have "braced (take (length a3 - length a4) a3) \<and> length a4 < length a3"
  proof (rule starts_ends [OF _ k])
    fix t s1 g
    assume "(s1, g) \<in> set (rx_run (Cat (Lazy (Chr (\<lambda>x. True))) (Chr (\<lambda>x. x = 125))) t)"
    from ends_Chr [OF this] show "\<exists>u d. t = u @ d # s1 \<and> d = 125" .
  qed
  with e1 e2 e3 e4 f1 f2 f3 f5 g4 k0 show ?thesis by simp
qed

lemma pattern_matches:
  assumes "(s1, g) \<in> set (rx_run json_pattern s)"
  shows "braced (take (length s - length s1) s) \<and> length s1 < length s"
proof (rule starts_ends [OF _ assms [unfolded json_pattern_def]])
  fix t s1 g
  assume a: "(s1, g) \<in> set (rx_run (Cat (Star (Chr no_brace))
      (Cat (Star (Cat (Chr (\<lambda>x. x = 123)) (Cat (Star (Chr no_brace))
         (Cat (Chr (\<lambda>x. x = 125)) (Star (Chr no_brace))))))
       (Chr (\<lambda>x. x = 125)))) t)"
  show "\<exists>u d. t = u @ d # s1 \<and> d = 125"
    by (rule ends_Cat [OF _ a]) (rule ends_Chr)
qed

lemma re_search_mem:
  "re_search r t = Some gs \<Longrightarrow> \<exists>u s1. (s1, gs) \<in> set (rx_run r u)"
proof (induction t)
  case Nil
  show ?case
  proof (cases "rx_run r []")
    case Nil': Nil
    with Nil show ?thesis by simp
  next
    case (Cons x xs)
    obtain s1 g where x: "x = (s1, g)" by (cases x)
    with Cons Nil have "g = gs" by simp
    with x Cons have "(s1, gs) \<in> set (rx_run r [])" by simp
    then show ?thesis by blast
  qed
next
  case (Cons c t)
  show ?case
  proof (cases "rx_run r (c # t)")
    case Nil
    with Cons show ?thesis by simp
  next
    case (Cons x xs)
    obtain s1 g where x: "x = (s1, g)" by (cases x)
    with Cons Cons.prems have "g = gs" by simp
    with x Cons have "(s1, gs) \<in> set (rx_run r (c # t))" by simp
    then show ?thesis by blast
  qed
qed

lemma findall_all:
  "(\<forall>s s1 g. (s1, g) \<in> set (rx_run r s)
      \<longrightarrow> Q (take (length s - length s1) s) \<and> length s1 < length s) \<Longrightarrow>
   x \<in> set (re_findall_from r ma s) \<Longrightarrow> Q x"
proof (induction r ma s rule: re_findall_from.induct)
  case (1 r ma s)
  let ?f = "filter (\<lambda>(s1, g). \<not> ma \<or> length s1 < length s) (rx_run r s)"
  show ?case
  proof (cases ?f)
    case Nil
    show ?thesis
    proof (cases s)
      case Nil': Nil
      with Nil "1.prems"(2) show ?thesis by (subst (asm) re_findall_from.simps) simp
    next
      case (Cons c t)
      with Nil "1.prems"(2) have "x \<in> set (re_findall_from r False t)"
        by (subst (asm) re_findall_from.simps) simp
      from "1.IH"(1) [OF Nil Cons "1.prems"(1) this] show ?thesis .
    qed
  next
    case (Cons p ps)
    obtain s1 g where p: "p = (s1, g)" by (cases p)
    have "p \<in> set ?f" using Cons by simp
    then have mem: "(s1, g) \<in> set (rx_run r s)" using p by simp
    from "1.prems"(1) mem have q: "Q (take (length s - length s1) s)"
      and l: "length s1 < length s" by blast+
    from Cons p l "1.prems"(2)
    have "x = take (length s - length s1) s \<or> x \<in> set (re_findall_from r False s1)"
      by (subst (asm) re_findall_from.simps) simp
    then show ?thesis
    proof
      assume "x = take (length s - length s1) s"
      with q show ?thesis by simp
    next
      assume "x \<in> set (re_findall_from r False s1)"
      from "1.IH"(2) [OF Cons p [symmetric] l "1.prems"(1) this] show ?thesis .
    qed
  qed
qed

lemma max_by_len_mem: "xs \<noteq> [] \<Longrightarrow> max_by_len xs \<in> set xs"
proof -
  have f: "foldl (\<lambda>best x. if length x > length best then x else best) a ys \<in> insert a (set ys)"
    for a :: pystr and ys
    by (induction ys arbitrary: a) auto
  assume "xs \<noteq> []"
  then obtain y ys where "xs = y # ys" by (cases xs) auto
  with f [of y ys] show ?thesis by (simp add: max_by_len_def)
qed

lemma find_char_found:
  "find_char c s \<noteq> -1 \<Longrightarrow>
   0 \<le> find_char c s \<and> nat (find_char c s) < length s \<and> s ! nat (find_char c s) = c"
proof (induction s)
  case Nil
  then show ?case by simp
next
  case (Cons x s)
  show ?case
  proof (cases "x = c")
    case True
    then show ?thesis by simp
  next
    case False
    with Cons.prems have n: "find_char c s \<noteq> -1" by (auto simp: Let_def split: if_splits)
    from Cons.IH [OF n] have ih: "0 \<le> find_char c s" "nat (find_char c s) < length s"
      "s ! nat (find_char c s) = c" by simp_all
    from False n have eq: "find_char c (x # s) = find_char c s + 1" by (simp add: Let_def)
    from ih have "nat (find_char c s + 1) = Suc (nat (find_char c s))" by simp
    with ih eq show ?thesis by simp
  qed
qed

lemma rfind_char_found:
  assumes "rfind_char c s \<noteq> -1"
  shows "0 \<le> rfind_char c s \<and> nat (rfind_char c s) < length s \<and> s ! nat (rfind_char c s) = c"
proof -
  let ?i = "find_char c (rev s)"
  from assms have n: "?i \<noteq> -1" by (auto simp: rfind_char_def Let_def)
  from find_char_found [OF n] have i: "0 \<le> ?i" "nat ?i < length s" "rev s ! nat ?i = c"
    by simp_all
  from n have r: "rfind_char c s = int (length s) - 1 - ?i" by (simp add: rfind_char_def Let_def)
  from i have nn: "nat (int (length s) - 1 - ?i) = length s - Suc (nat ?i)" by linarith
  from i(2,3) have "s ! (length s - Suc (nat ?i)) = c" by (simp add: rev_nth)
  with r nn i show ?thesis by auto
qed

lemma slice_nat_braced:
  assumes "b < e" "e < length s" "s ! b = 123" "s ! e = 125"
  shows "braced (take (Suc (e - b)) (drop b s))"
proof -
  let ?w = "take (Suc (e - b)) (drop b s)"
  have len: "length ?w = Suc (e - b)" using assms(1,2) by simp
  then have ne: "?w \<noteq> []" by auto
  have h: "hd ?w = 123" using assms(1,2,3) by (simp add: hd_drop_conv_nth)
  have "last ?w = ?w ! (e - b)" using ne len by (simp add: last_conv_nth)
  also have "\<dots> = drop b s ! (e - b)" by simp
  also have "\<dots> = s ! (b + (e - b))" using assms(1,2) by (simp add: nth_drop)
  also have "\<dots> = 125" using assms(1,4) by simp
  finally show ?thesis using ne h by (simp add: braced_def)
qed

lemma slice_braced:
  assumes "find_char 123 s \<noteq> -1" "rfind_char 125 s \<noteq> -1" "find_char 123 s < rfind_char 125 s"
  shows "braced (take (nat (rfind_char 125 s + 1 - find_char 123 s)) (drop (nat (find_char 123 s)) s))"
proof -
  define b where "b = nat (find_char 123 s)"
  define e where "e = nat (rfind_char 125 s)"
  from find_char_found [OF assms(1)] have b: "0 \<le> find_char 123 s" "b < length s" "s ! b = 123"
    by (simp_all add: b_def)
  from rfind_char_found [OF assms(2)] have e: "0 \<le> rfind_char 125 s" "e < length s" "s ! e = 125"
    by (simp_all add: e_def)
  from assms(3) b(1) e(1) have lt: "b < e" unfolding b_def e_def by linarith
  have n: "nat (rfind_char 125 s + 1 - find_char 123 s) = Suc (e - b)"
    using b(1) e(1) assms(3) unfolding b_def e_def by linarith
  from slice_nat_braced [OF lt e(2) b(3) e(3)] show ?thesis
    unfolding n b_def [symmetric] .
qed

lemma extract_json_Some_braced:
  assumes "extract_json_from_text text = Some r"
  shows "braced r"
proof (cases "re_search json_block_pattern text")
  case (Some gs)
  from re_search_mem [OF Some] block_groups obtain w where w: "gs = [w]" "braced w" by blast
  with Some assms show ?thesis by (simp add: extract_json_from_text_def strip_braced)
next
  case None
  show ?thesis
  proof (cases "re_findall json_pattern text = []")
    case False
    then have "max_by_len (re_findall json_pattern text) \<in> set (re_findall json_pattern text)"
      by (rule max_by_len_mem)
    then have "braced (max_by_len (re_findall json_pattern text))"
      unfolding re_findall_def by (rule findall_all [rotated]) (blast dest: pattern_matches)
    with None False assms show ?thesis
      by (simp add: extract_json_from_text_def strip_braced Let_def)
  next
    case True
    with None assms have c: "find_char 123 text \<noteq> -1" "rfind_char 125 text \<noteq> -1"
      "find_char 123 text < rfind_char 125 text"
      by (auto simp: extract_json_from_text_def Let_def split: if_splits)
    from slice_braced [OF c] None True assms c show ?thesis
      by (auto simp: extract_json_from_text_def strip_braced Let_def)
  qed
qed

text \<open>
  C10. For every text, \<open>extract_json_from_text\<close> returns \<open>None\<close> or a string whose first
  character is an opening brace and whose last character is a closing brace.
\<close>

theorem extract_json_result_braced:
  "extract_json_from_text text = None
   \<or> (\<exists>r. extract_json_from_text text = Some r \<and> r \<noteq> [] \<and> hd r = 123 \<and> last r = 125)"
proof (cases "extract_json_from_text text")
  case None
  then show ?thesis by simp
next
  case (Some r)
  from extract_json_Some_braced [OF Some] Some show ?thesis by (simp add: braced_def)
qed

section \<open>The fenced block\<close>

lemma rx_run_Opt_nomatch: "rx_run a s = [] \<Longrightarrow> rx_run (Cat (Opt a) b) s = rx_run b s"
  by (simp add: rx_run.simps(3,4) map_groups_id)

lemma rx_run_Opt_match:
  "rx_run a s = [(s1, [])] \<Longrightarrow> rx_run (Cat (Opt a) b) s = rx_run b s1 @ rx_run b s"
  by (simp add: rx_run.simps(3,4) map_groups_id)

lemma rx_run_Star_stop: "s = [] \<or> \<not> P (hd s) \<Longrightarrow> rx_run (Star (Chr P)) s = [(s, [])]"
  by (cases s) (simp_all add: rx_run.simps(2,5))

lemma rx_run_Star_Cons:
  "P c \<Longrightarrow> rx_run (Star (Chr P)) (c # t) = rx_run (Star (Chr P)) t @ [(c # t, [])]"
  by (simp add: rx_run.simps(5) [of "Chr P" "c # t"] rx_run.simps(2))

lemma rx_run_Cat_Star_stop:
  "s = [] \<or> \<not> P (hd s) \<Longrightarrow> rx_run (Cat (Star (Chr P)) b) s = rx_run b s"
  by (simp add: rx_run.simps(3) rx_run_Star_stop map_groups_id)

lemma rx_run_Cat_Star_head:
  "list_all P ws \<Longrightarrow> s = [] \<or> \<not> P (hd s) \<Longrightarrow>
   \<exists>X. rx_run (Cat (Star (Chr P)) b) (ws @ s) = rx_run b s @ X"
proof (induction ws)
  case Nil
  then show ?case by (simp add: rx_run_Cat_Star_stop)
next
  case (Cons c ws)
  then obtain X where X: "rx_run (Cat (Star (Chr P)) b) (ws @ s) = rx_run b s @ X"
    by auto
  from Cons.prems have c: "P c" by simp
  have "rx_run (Cat (Star (Chr P)) b) ((c # ws) @ s)
      = rx_run (Cat (Star (Chr P)) b) (ws @ s) @ rx_run b (c # ws @ s)"
    by (simp add: rx_run.simps(3) rx_run_Star_Cons [of P c "ws @ s", OF c] map_groups_id)
  with X show ?case by simp
qed

lemma rx_run_Lazy_any_Cons:
  "rx_run (Lazy (Chr (\<lambda>x. True))) (c # t) = (c # t, []) # rx_run (Lazy (Chr (\<lambda>x. True))) t"
  by (simp add: rx_run.simps(6) [of "Chr (\<lambda>x. True)" "c # t"] rx_run.simps(2))

lemma rx_run_Lazy_then:
  "rx_run (Cat (Lazy (Chr (\<lambda>x. True))) b) (c # t)
     = rx_run b (c # t) @ rx_run (Cat (Lazy (Chr (\<lambda>x. True))) b) t"
  by (simp add: rx_run.simps(3) rx_run_Lazy_any_Cons map_groups_id)

lemma rx_run_Lazy_first:
  "list_all (\<lambda>x. \<not> Q x) body \<Longrightarrow> Q d \<Longrightarrow>
   \<exists>Y. rx_run (Cat (Lazy (Chr (\<lambda>x. True))) (Chr Q)) (body @ d # rest) = (rest, []) # Y"
proof (induction body)
  case Nil
  then show ?case by (simp add: rx_run_Lazy_then rx_run.simps(2))
next
  case (Cons c body)
  then show ?case by (simp add: rx_run_Lazy_then rx_run.simps(2))
qed

lemma rx_run_Grp_fail: "rx_run a s = [] \<Longrightarrow> rx_run (Cat (Grp a) b) s = []"
  by (simp add: rx_run.simps(3,7))

lemma rx_run_Grp_head:
  "rx_run a s = (s1, []) # Y \<Longrightarrow> rx_run b s1 = (s2, []) # X \<Longrightarrow>
   \<exists>Z. rx_run (Cat (Grp a) b) s = (s2, [take (length s - length s1) s]) # Z"
  by (simp add: rx_run.simps(3,7))

lemma ilit_json: "ilit (py ''json'') = Cat (ichr 106) (Cat (ichr 115) (Cat (ichr 111) (Cat (ichr 110) Eps)))"
  by (simp add: ilit_def py_def)

lemma ilit_json_nomatch:
  "s = [] \<or> (hd s \<noteq> 106 \<and> hd s \<noteq> 74) \<Longrightarrow> rx_run (ilit (py ''json'')) s = []"
  by (cases s) (auto simp: ilit_json ichr_def rx_run_Cat_Chr)

lemma ilit_json_match:
  assumes "map ascii_lower lbl = py ''json''"
  shows "rx_run (ilit (py ''json'')) (lbl @ s) = [(s, [])]"
proof -
  from assms obtain a b c d where l: "lbl = [a, b, c, d]"
    and "ascii_lower a = 106" "ascii_lower b = 115" "ascii_lower c = 111" "ascii_lower d = 110"
    by (auto simp: py_def map_eq_Cons_conv)
  then have "a = 106 \<or> a + 32 = 106" "b = 115 \<or> b + 32 = 115" "c = 111 \<or> c + 32 = 111"
    "d = 110 \<or> d + 32 = 110"
    by (auto simp: ascii_lower_def split: if_splits)
  with l show ?thesis
    by (auto simp: ilit_json ichr_def rx_run_Cat_Chr rx_run.simps(1))
qed

lemma re_search_head: "rx_run r s = (s1, g) # W \<Longrightarrow> re_search r s = Some g"
  by (cases s) simp_all

lemma re_search_prefix:
  "(\<forall>i < length pre. rx_run r (drop i pre @ rest) = []) \<Longrightarrow>
   re_search r (pre @ rest) = re_search r rest"
proof (induction pre)
  case Nil
  then show ?case by simp
next
  case (Cons c pre)
  from Cons.prems have 0: "rx_run r ((c # pre) @ rest) = []" by force
  have "\<forall>i < length pre. rx_run r (drop i pre @ rest) = []"
  proof (intro allI impI)
    fix i assume "i < length pre"
    then have "Suc i < length (c # pre)" by simp
    with Cons.prems have "rx_run r (drop (Suc i) (c # pre) @ rest) = []" by blast
    then show "rx_run r (drop i pre @ rest) = []" by simp
  qed
  from Cons.IH [OF this] 0 show ?case by simp
qed

lemma block_no_match_before:
  assumes "q \<noteq> []" "\<not> sublist (py ''```'') q"
  shows "rx_run json_block_pattern (q @ py ''```'' @ X) = []"
proof (cases "prefix (py ''```'') (q @ py ''```'' @ X)")
  case False
  then show ?thesis by (simp add: json_block_pattern_def rx_run_Cat_lit)
next
  case True
  have tail: "rx_run (Cat (Opt (ilit (py ''json'')))
        (Cat (Star (Chr isspace))
          (Cat (Grp (Cat (Chr (\<lambda>x. x = 123)) (Cat (Lazy (Chr (\<lambda>x. True))) (Chr (\<lambda>x. x = 125)))))
            (Cat (Star (Chr isspace)) (lit (py ''```'')))))) (96 # Y) = []" for Y
    by (simp add: rx_run_Opt_nomatch ilit_json_nomatch rx_run_Cat_Star_stop isspace_def
        rx_run_Grp_fail rx_run_Cat_Chr)
  from assms(1) obtain c q' where q: "q = c # q'" by (cases q) auto
  have "\<exists>Y. drop 3 (q @ py ''```'' @ X) = 96 # Y"
  proof (cases q')
    case Nil
    with q True show ?thesis by (simp add: py_def)
  next
    case (Cons d q'')
    show ?thesis
    proof (cases q'')
      case Nil
      with q Cons True show ?thesis by (simp add: py_def)
    next
      case (Cons e q3)
      with q \<open>q' = d # q''\<close> True have "prefix (py ''```'') q" by (simp add: py_def)
      then have "sublist (py ''```'') q" by (rule prefix_imp_sublist)
      with assms(2) show ?thesis by simp
    qed
  qed
  then obtain Y where Y: "drop 3 (q @ py ''```'' @ X) = 96 # Y" by blast
  have l3: "length (py ''```'') = 3" by (simp add: py_def)
  show ?thesis
    using True Y tail [of Y] by (simp add: json_block_pattern_def rx_run_Cat_lit l3)
qed

lemma block_match_here:
  assumes "lbl = [] \<or> map ascii_lower lbl = py ''json''" "list_all isspace ws1"
    "list_all isspace ws2" "125 \<notin> set body"
  shows "\<exists>W. rx_run json_block_pattern
      (py ''```'' @ lbl @ ws1 @ (123 # body @ [125]) @ ws2 @ py ''```'' @ post)
     = (post, [123 # body @ [125]]) # W"
proof -
  let ?G = "Cat (Chr (\<lambda>x. x = 123)) (Cat (Lazy (Chr (\<lambda>x. True))) (Chr (\<lambda>x. x = 125)))"
  let ?tail = "Cat (Star (Chr isspace)) (lit (py ''```''))"
  let ?obj = "123 # body @ [125]"
  let ?r3 = "ws2 @ py ''```'' @ post"
  let ?r2 = "?obj @ ?r3"
  let ?r1 = "ws1 @ ?r2"
  have t0: "rx_run (lit (py ''```'')) (py ''```'' @ post) = (post, []) # []"
    by (simp add: rx_run_lit)
  have "py ''```'' @ post = [] \<or> \<not> isspace (hd (py ''```'' @ post))"
    by (simp add: py_def isspace_def)
  from rx_run_Cat_Star_head [OF assms(3) this, of "lit (py ''```'')"] t0
  obtain X where tl: "rx_run ?tail ?r3 = (post, []) # X" by auto
  have "list_all (\<lambda>x. \<not> x = 125) body" using assms(4) by (auto simp: list_all_iff)
  from rx_run_Lazy_first [OF this, of 125 ?r3] obtain Y
    where "rx_run (Cat (Lazy (Chr (\<lambda>x. True))) (Chr (\<lambda>x. x = 125))) (body @ 125 # ?r3) = (?r3, []) # Y"
    by auto
  then have g: "rx_run ?G ?r2 = (?r3, []) # Y" by (simp add: rx_run_Cat_Chr)
  have "take (length ?r2 - length ?r3) ?r2 = ?obj" by simp
  with rx_run_Grp_head [OF g tl] obtain Z
    where gz: "rx_run (Cat (Grp ?G) ?tail) ?r2 = (post, [?obj]) # Z" by auto
  have "?r2 = [] \<or> \<not> isspace (hd ?r2)" by (simp add: isspace_def)
  from rx_run_Cat_Star_head [OF assms(2) this, of "Cat (Grp ?G) ?tail"] gz
  obtain V where st: "rx_run (Cat (Star (Chr isspace)) (Cat (Grp ?G) ?tail)) ?r1 = (post, [?obj]) # V"
    by auto
  have "\<exists>W. rx_run (Cat (Opt (ilit (py ''json''))) (Cat (Star (Chr isspace)) (Cat (Grp ?G) ?tail)))
      (lbl @ ?r1) = (post, [?obj]) # W"
  proof (cases "lbl = []")
    case True
    have "hd ?r1 \<noteq> 106 \<and> hd ?r1 \<noteq> 74"
    proof (cases ws1)
      case Nil
      then show ?thesis by simp
    next
      case (Cons w ws)
      with assms(2) have "isspace w" by simp
      then have "w \<noteq> 106 \<and> w \<noteq> 74" by (auto simp: isspace_def)
      with Cons show ?thesis by simp
    qed
    then have "rx_run (ilit (py ''json'')) ?r1 = []" by (intro ilit_json_nomatch) simp
    from rx_run_Opt_nomatch [OF this] st True show ?thesis by simp
  next
    case False
    with assms(1) have "map ascii_lower lbl = py ''json''" by simp
    from rx_run_Opt_match [OF ilit_json_match [OF this, of ?r1]] st show ?thesis by simp
  qed
  then obtain W where "rx_run (Cat (Opt (ilit (py ''json'')))
      (Cat (Star (Chr isspace)) (Cat (Grp ?G) ?tail))) (lbl @ ?r1) = (post, [?obj]) # W" by blast
  then have "rx_run json_block_pattern (py ''```'' @ lbl @ ?r1) = (post, [?obj]) # W"
    by (simp add: json_block_pattern_def rx_run_Cat_lit)
  then show ?thesis by simp
qed

lemma fenced_block_found:
  assumes "\<not> sublist (py ''```'') pre" "lbl = [] \<or> map ascii_lower lbl = py ''json''"
    "list_all isspace ws1" "list_all isspace ws2" "125 \<notin> set body"
  shows "extract_json_from_text
      (pre @ py ''```'' @ lbl @ ws1 @ (123 # body @ [125]) @ ws2 @ py ''```'' @ post)
     = Some (123 # body @ [125])"
proof -
  let ?X = "lbl @ ws1 @ (123 # body @ [125]) @ ws2 @ py ''```'' @ post"
  have "\<forall>i < length pre. rx_run json_block_pattern (drop i pre @ py ''```'' @ ?X) = []"
  proof (intro allI impI)
    fix i assume i: "i < length pre"
    then have ne: "drop i pre \<noteq> []" by simp
    have "sublist (drop i pre) pre" by (rule suffix_imp_sublist) (rule suffix_drop)
    with assms(1) have "\<not> sublist (py ''```'') (drop i pre)"
      using sublist_order.order.trans by blast
    from block_no_match_before [OF ne this] show
      "rx_run json_block_pattern (drop i pre @ py ''```'' @ ?X) = []" .
  qed
  from re_search_prefix [OF this]
  have "re_search json_block_pattern (pre @ py ''```'' @ ?X)
      = re_search json_block_pattern (py ''```'' @ ?X)" .
  also from block_match_here [OF assms(2-5), of post] obtain W
    where "rx_run json_block_pattern (py ''```'' @ ?X) = (post, [123 # body @ [125]]) # W"
    by blast
  then have "re_search json_block_pattern (py ''```'' @ ?X) = Some [123 # body @ [125]]"
    by (rule re_search_head)
  finally have s: "re_search json_block_pattern (pre @ py ''```'' @ ?X) = Some [123 # body @ [125]]" .
  have "braced (123 # body @ [125])" by (simp add: braced_def)
  then have "strip (123 # body @ [125]) = 123 # body @ [125]" by (rule strip_braced)
  with s show ?thesis by (simp add: extract_json_from_text_def)
qed

lemma fenced_object_shape:
  "\<exists>body. fenced_object = 123 # body @ [125] \<and> 125 \<notin> set body"
proof -
  have "fenced_object = 123 # butlast (tl fenced_object) @ [125]"
    by (simp add: fenced_object_def py_def)
  moreover have "125 \<notin> set (butlast (tl fenced_object))"
    by (simp add: fenced_object_def py_def)
  ultimately show ?thesis by blast
qed

text \<open>
  C7, as amended. The parser tries the fenced pattern first, the brace pattern only when
  the fenced pattern matches nowhere, and the slice from the first opening brace to the
  last closing brace only when the brace pattern matches nowhere either. For a text in
  which no three backquotes occur before a fenced block (three backquotes, an optional
  \<open>json\<close> in any case, whitespace, the object, whitespace, three backquotes) that wraps
  the object of the test, it returns exactly the text of that object.
\<close>

theorem parser_order_and_first_fenced_block:
  "(\<forall>gs. re_search json_block_pattern text = Some gs \<longrightarrow>
        extract_json_from_text text = Some (strip (hd gs)))
   \<and> (re_search json_block_pattern text = None \<and> re_findall json_pattern text \<noteq> [] \<longrightarrow>
        extract_json_from_text text = Some (strip (max_by_len (re_findall json_pattern text))))
   \<and> (re_search json_block_pattern text = None \<and> re_findall json_pattern text = [] \<longrightarrow>
        extract_json_from_text text =
          (if find_char 123 text \<noteq> -1 \<and> rfind_char 125 text \<noteq> -1
              \<and> find_char 123 text < rfind_char 125 text
           then Some (strip (take (nat (rfind_char 125 text + 1 - find_char 123 text))
                               (drop (nat (find_char 123 text)) text)))
           else None))
   \<and> (\<not> sublist (py ''```'') pre \<and> (lbl = [] \<or> map ascii_lower lbl = py ''json'')
        \<and> list_all isspace ws1 \<and> list_all isspace ws2 \<longrightarrow>
        extract_json_from_text
          (pre @ py ''```'' @ lbl @ ws1 @ fenced_object @ ws2 @ py ''```'' @ post)
          = Some fenced_object)"
proof (intro conjI allI impI)
  fix gs assume "re_search json_block_pattern text = Some gs"
  then show "extract_json_from_text text = Some (strip (hd gs))"
    by (simp add: extract_json_from_text_def)
next
  assume "re_search json_block_pattern text = None \<and> re_findall json_pattern text \<noteq> []"
  then show "extract_json_from_text text
      = Some (strip (max_by_len (re_findall json_pattern text)))"
    by (simp add: extract_json_from_text_def)
next
  assume "re_search json_block_pattern text = None \<and> re_findall json_pattern text = []"
  then show "extract_json_from_text text =
          (if find_char 123 text \<noteq> -1 \<and> rfind_char 125 text \<noteq> -1
              \<and> find_char 123 text < rfind_char 125 text
           then Some (strip (take (nat (rfind_char 125 text + 1 - find_char 123 text))
                               (drop (nat (find_char 123 text)) text)))
           else None)"
    by (simp add: extract_json_from_text_def Let_def)
next
  assume a: "\<not> sublist (py ''```'') pre \<and> (lbl = [] \<or> map ascii_lower lbl = py ''json'')
        \<and> list_all isspace ws1 \<and> list_all isspace ws2"
  from fenced_object_shape obtain body where b: "fenced_object = 123 # body @ [125]"
    "125 \<notin> set body" by blast
  from a have "\<not> sublist (py ''```'') pre" "lbl = [] \<or> map ascii_lower lbl = py ''json''"
    "list_all isspace ws1" "list_all isspace ws2" by simp_all
  from fenced_block_found [OF this b(2), of post] b(1)
  show "extract_json_from_text
          (pre @ py ''```'' @ lbl @ ws1 @ fenced_object @ ws2 @ py ''```'' @ post)
          = Some fenced_object" by simp
qed

theorem parser_order_and_first_fenced_block_witness:
  "extract_json_from_text
     (py ''Here is the result: '' @ py ''```'' @ py ''JSON'' @ [10] @ fenced_object @ [10]
        @ py ''```'' @ py '' Hope this helps!'')
     = Some fenced_object"
proof -
  have 1: "\<not> sublist (py ''```'') (py ''Here is the result: '')"
    by (simp add: py_def sublist_code)
  have 2: "map ascii_lower (py ''JSON'') = py ''json''"
    by (simp add: py_def ascii_lower_def)
  have 3: "list_all isspace [10]" by (simp add: isspace_def)
  from parser_order_and_first_fenced_block
    [of "[]" "py ''Here is the result: ''" "py ''JSON''" "[10]" "[10]" "py '' Hope this helps!''"]
    1 2 3
  show ?thesis by blast
qed

text \<open>
  The claim C7 as it is stated fails on a text with two fenced blocks, the second of
  which wraps the object of the test: the parser returns the content of the first.
\<close>

theorem first_fenced_block_counterexample:
  "extract_json_from_text
     (py ''```{}```'' @ py '' ```json'' @ [10] @ fenced_object @ [10] @ py ''```'')
     = Some (py ''{}'')
   \<and> sublist (py ''```json'' @ [10] @ fenced_object @ [10] @ py ''```'')
       (py ''```{}```'' @ py '' ```json'' @ [10] @ fenced_object @ [10] @ py ''```'')
   \<and> py ''{}'' \<noteq> fenced_object"
proof -
  have e: "extract_json_from_text
      ([] @ py ''```'' @ [] @ [] @ (123 # [] @ [125]) @ [] @ py ''```''
         @ (py '' ```json'' @ [10] @ fenced_object @ [10] @ py ''```''))
     = Some (123 # [] @ [125])"
    by (rule fenced_block_found) (simp_all add: py_def)
  have t: "py ''```{}```'' = py ''```'' @ [123, 125] @ py ''```''" by (simp add: py_def)
  have b: "py ''{}'' = [123, 125]" by (simp add: py_def)
  have s: "sublist (py ''```json'' @ [10] @ fenced_object @ [10] @ py ''```'')
       (py ''```{}```'' @ py '' ```json'' @ [10] @ fenced_object @ [10] @ py ''```'')"
  proof -
    have "py ''```{}```'' @ py '' ```json'' @ [10] @ fenced_object @ [10] @ py ''```''
        = (py ''```{}``` '') @ (py ''```json'' @ [10] @ fenced_object @ [10] @ py ''```'') @ []"
      by (simp add: py_def)
    then show ?thesis by (simp only: sublist_appendI)
  qed
  have n: "py ''{}'' \<noteq> fenced_object" by (simp add: fenced_object_def py_def)
  from e t b s n show ?thesis by simp
qed

section \<open>Properties of the Metadata Extractor\<close>

lemma no_backquote_no_block: "96 \<notin> set t \<Longrightarrow> re_search json_block_pattern t = None"
proof (induction t)
  case Nil
  have "rx_run json_block_pattern [] = []"
    by (simp add: json_block_pattern_def rx_run_Cat_lit py_def)
  then show ?case by simp
next
  case (Cons c t)
  then have "\<not> prefix (py ''```'') (c # t)" by (simp add: py_def)
  then have "rx_run json_block_pattern (c # t) = []"
    by (simp add: json_block_pattern_def rx_run_Cat_lit)
  with Cons show ?case by simp
qed

lemma json_pattern_head:
  assumes "list_all no_brace body"
  shows "\<exists>X. rx_run json_pattern (123 # body @ 125 # rest) = (rest, []) # X"
proof -
  let ?G = "Cat (Chr (\<lambda>x. x = 123))
      (Cat (Star (Chr no_brace)) (Cat (Chr (\<lambda>x. x = 125)) (Star (Chr no_brace))))"
  have g: "rx_run ?G (125 # rest) = []" by (simp add: rx_run_Cat_Chr)
  have "rx_run (Star ?G) (125 # rest) = [(125 # rest, [])]"
    by (simp add: rx_run.simps(5) [of ?G "125 # rest"] g)
  then have b: "rx_run (Cat (Star ?G) (Chr (\<lambda>x. x = 125))) (125 # rest) = [(rest, [])]"
    by (simp add: rx_run.simps(3) [of "Star ?G"] rx_run.simps(2))
  have "125 # rest = [] \<or> \<not> no_brace (hd (125 # rest))" by (simp add: no_brace_def)
  from rx_run_Cat_Star_head [OF assms this, of "Cat (Star ?G) (Chr (\<lambda>x. x = 125))"] b
  show ?thesis by (simp add: json_pattern_def rx_run_Cat_Chr)
qed

lemma findall_flat_object:
  assumes "list_all no_brace body"
  shows "re_findall json_pattern (123 # body @ [125]) = [123 # body @ [125]]"
proof -
  from json_pattern_head [OF assms, of "[]"] obtain X
    where h: "rx_run json_pattern (123 # body @ [125]) = ([], []) # X" by blast
  have e: "rx_run json_pattern [] = []" by (simp add: json_pattern_def rx_run_Cat_Chr)
  have "re_findall_from json_pattern False [] = []"
    by (subst re_findall_from.simps) (simp add: e)
  then show ?thesis
    unfolding re_findall_def
    by (subst re_findall_from.simps) (simp add: h)
qed

lemma extract_flat_object:
  assumes "list_all no_brace body" "96 \<notin> set body"
  shows "extract_json_from_text (123 # body @ [125]) = Some (123 # body @ [125])"
proof -
  have "96 \<notin> set (123 # body @ [125])" using assms(2) by simp
  from no_backquote_no_block [OF this]
  have 1: "re_search json_block_pattern (123 # body @ [125]) = None" .
  have "braced (123 # body @ [125])" by (simp add: braced_def)
  then have 3: "strip (123 # body @ [125]) = 123 # body @ [125]" by (rule strip_braced)
  show ?thesis
    unfolding extract_json_from_text_def 1 findall_flat_object [OF assms(1)]
    by (simp add: max_by_len_def 3)
qed

lemma strip_flat_object: "strip (123 # body @ [125]) = 123 # body @ [125]"
  by (rule strip_braced) (simp add: braced_def)

lemma extract_metadata_cases:
  "extract_metadata D llm post =
     (case llm (render_prompt (truncate_post post)) of
        Inl e \<Rightarrow> Inl e
      | Inr response \<Rightarrow>
          (case extract_json_from_text (strip response) of
             None \<Rightarrow> Inl (Exn ValueError (py ''No valid JSON found in response''))
           | Some json_str \<Rightarrow> D json_str))"
proof (cases "llm (render_prompt (truncate_post post))")
  case (Inl e)
  then show ?thesis by (simp add: extract_metadata_def)
next
  case (Inr response)
  show ?thesis
  proof (cases "extract_json_from_text (strip response)")
    case None
    with Inr show ?thesis by (simp add: extract_metadata_def)
  next
    case (Some js)
    from extract_json_Some_braced [OF Some] have "js \<noteq> []" by (simp add: braced_def)
    with Inr Some show ?thesis by (simp add: extract_metadata_def)
  qed
qed

text \<open>
  C2, as amended. \<open>extract_metadata\<close> fails exactly when the completion capability
  raises (with that exception), when the Response Parser returns none (with the
  \<open>ValueError\<close> of line 153), or when \<open>json.loads\<close> raises on the extracted string (with
  that exception). On every other run it returns what \<open>json.loads\<close> decoded from the
  extracted string, as it is: nothing compares the value with the Metadata schema.
\<close>

theorem extract_metadata_fails_exactly_when:
  "(\<forall>e. llm (render_prompt (truncate_post post)) = Inl e \<longrightarrow>
        extract_metadata D llm post = Inl e)
   \<and> (\<forall>response. llm (render_prompt (truncate_post post)) = Inr response
          \<and> extract_json_from_text (strip response) = None \<longrightarrow>
        extract_metadata D llm post
          = Inl (Exn ValueError (py ''No valid JSON found in response'')))
   \<and> (\<forall>response json_str. llm (render_prompt (truncate_post post)) = Inr response
          \<and> extract_json_from_text (strip response) = Some json_str \<longrightarrow>
        extract_metadata D llm post = D json_str)
   \<and> ((\<exists>e. extract_metadata D llm post = Inl e) \<longleftrightarrow>
        (\<exists>e. llm (render_prompt (truncate_post post)) = Inl e)
        \<or> (\<exists>response. llm (render_prompt (truncate_post post)) = Inr response
              \<and> (extract_json_from_text (strip response) = None
                  \<or> (\<exists>json_str e. extract_json_from_text (strip response) = Some json_str
                        \<and> D json_str = Inl e))))"
  by (auto simp: extract_metadata_cases split: sum.splits option.splits)

lemma loads_empty_object: "json_loads 900 [123, 125] = Inr (JObj [])"
  by (simp add: json_loads_def skip_ws_def json_ws_def)

theorem extract_metadata_fails_exactly_when_witness:
  "extract_metadata (json_loads 900) (\<lambda>p. Inr (py '' {} '')) (py ''hello'') = Inr (JObj [])"
proof -
  have s: "strip (py '' {} '') = [123, 125]" by (simp add: strip_def py_def isspace_def)
  have x: "extract_json_from_text [123, 125] = Some [123, 125]"
    using extract_flat_object [of "[]"] by simp
  from extract_metadata_fails_exactly_when
    [of "\<lambda>p. Inr (py '' {} '')" "py ''hello''" "json_loads 900"] s x loads_empty_object
  show ?thesis by simp
qed

text \<open>
  The claim C2 as it is stated fails when the model answers \<open>{}\<close>: the run does not fail,
  and the value returned has none of the three fields of the schema.
\<close>

theorem extract_metadata_schema_counterexample:
  "extract_metadata (json_loads 900) (\<lambda>p. Inr (py ''{}'')) (py ''hello'') = Inr (JObj [])
   \<and> \<not> metadata_ok (JObj [])"
proof -
  have s: "strip (py ''{}'') = [123, 125]" by (simp add: strip_def py_def isspace_def)
  have x: "extract_json_from_text [123, 125] = Some [123, 125]"
    using extract_flat_object [of "[]"] by simp
  have "extract_metadata (json_loads 900) (\<lambda>p. Inr (py ''{}'')) (py ''hello'') = Inr (JObj [])"
    by (simp add: extract_metadata_cases s x loads_empty_object)
  moreover have "\<not> metadata_ok (JObj [])" by (simp add: metadata_ok_def meta_get_def)
  ultimately show ?thesis by simp
qed

section \<open>Properties of the Retry Controller\<close>

lemma after_loop_returns:
  "after_loop L post calls slept = (Inr (get_fallback_metadata L post), calls, slept)"
  by (simp add: after_loop_def py_print_printable)

lemma retry_notice_printed: "py_print (retry_notice a m w) = Inr ()"
  by (simp add: retry_notice_def py_print_printable)

lemma retry_from_raises:
  "retry_from L ex post m a sl = (Inl e, n, sl') \<Longrightarrow>
   kind e = UnicodeEncodeError \<and> printable (msg e)"
proof (induction L ex post m a sl arbitrary: e n sl' rule: retry_from.induct)
  case (1 L ex post m a sl)
  show ?case
  proof (cases "int a < m")
    case False
    with "1.prems" show ?thesis
      by (subst (asm) retry_from.simps) (simp add: after_loop_returns)
  next
    case True
    show ?thesis
    proof (cases "ex a")
      case (Inr v)
      with True "1.prems" show ?thesis by (subst (asm) retry_from.simps) simp
    next
      case (Inl e0)
      show ?thesis
      proof (cases "is_retryable (lower L (msg e0))")
        case False
        show ?thesis
        proof (cases "py_print (py ''Non-retryable error: '' @ msg e0)")
          case (Inl e1)
          with True \<open>ex a = Inl e0\<close> False "1.prems" have "e = e1"
            by (subst (asm) retry_from.simps) simp
          with py_print_raises [OF Inl] show ?thesis by simp
        next
          case (Inr u)
          with True \<open>ex a = Inl e0\<close> False "1.prems" show ?thesis
            by (subst (asm) retry_from.simps) (simp add: after_loop_returns)
        qed
      next
        case retry: True
        let ?sl = "if int a < m - 1 then sl @ [(2 ^ a) * 5] else sl"
        from True Inl retry "1.prems"
        have rec: "retry_from L ex post m (Suc a) ?sl = (Inl e, n, sl')"
          by (subst (asm) retry_from.simps) (simp add: Let_def retry_notice_printed)
        show ?thesis
          using "1.IH" [OF True Inl refl retry refl retry_notice_printed rec] .
      qed
    qed
  qed
qed

lemma retry_from_cases:
  "(\<forall>k e. int k < m \<and> ex k = Inl e \<and> \<not> is_retryable (lower L (msg e)) \<longrightarrow> printable (msg e)) \<Longrightarrow>
   retry_from L ex post m a sl = (r, n, sl') \<Longrightarrow>
   (r = Inr (get_fallback_metadata L post) \<or> (\<exists>k v. int k < m \<and> ex k = Inr v \<and> r = Inr v))
   \<and> ((\<forall>k. a \<le> k \<and> k < n \<longrightarrow> isl (ex k)) \<longrightarrow> r = Inr (get_fallback_metadata L post))"
proof (induction L ex post m a sl arbitrary: r n sl' rule: retry_from.induct)
  case (1 L ex post m a sl)
  show ?case
  proof (cases "int a < m")
    case False
    with "1.prems"(2) show ?thesis
      by (subst (asm) retry_from.simps) (simp add: after_loop_returns)
  next
    case True
    show ?thesis
    proof (cases "ex a")
      case (Inr v)
      with True "1.prems"(2) have "r = Inr v" "n = Suc a"
        by (subst (asm) retry_from.simps, simp)+
      with Inr True show ?thesis by auto
    next
      case (Inl e)
      show ?thesis
      proof (cases "is_retryable (lower L (msg e))")
        case False
        with True Inl "1.prems"(1) have "printable (msg e)" by blast
        then have "py_print (py ''Non-retryable error: '' @ msg e) = Inr ()"
          by (simp add: py_print_printable)
        with True Inl False "1.prems"(2) show ?thesis
          by (subst (asm) retry_from.simps) (simp add: after_loop_returns)
      next
        case retry: True
        let ?sl = "if int a < m - 1 then sl @ [(2 ^ a) * 5] else sl"
        from True Inl retry "1.prems"(2)
        have rec: "retry_from L ex post m (Suc a) ?sl = (r, n, sl')"
          by (subst (asm) retry_from.simps) (simp add: Let_def retry_notice_printed)
        have ih: "(r = Inr (get_fallback_metadata L post)
              \<or> (\<exists>k v. int k < m \<and> ex k = Inr v \<and> r = Inr v))
            \<and> ((\<forall>k. Suc a \<le> k \<and> k < n \<longrightarrow> isl (ex k)) \<longrightarrow> r = Inr (get_fallback_metadata L post))"
          using "1.IH" [OF True Inl refl retry refl retry_notice_printed "1.prems"(1) rec] .
        then show ?thesis by auto
      qed
    qed
  qed
qed

lemma retry_from_fast_fail:
  assumes "0 < m" "ex 0 = Inl e" "\<not> is_retryable (lower L (msg e))"
  shows "retry_from L ex post m 0 [] =
     (if printable (msg e) then (Inr (get_fallback_metadata L post), 1, [])
      else (Inl (Exn UnicodeEncodeError (encode_error_msg (py ''Non-retryable error: '' @ msg e))),
            1, []))"
  using assms
  by (subst retry_from.simps) (simp add: after_loop_returns py_print_def)

lemma retry_from_all_retryable:
  "(\<forall>k. a \<le> k \<and> int k < m \<longrightarrow> (\<exists>e. ex k = Inl e \<and> is_retryable (lower L (msg e)))) \<Longrightarrow>
   retry_from L ex post m a sl =
     (Inr (get_fallback_metadata L post), max a (nat m),
      sl @ map (\<lambda>k. 5 * 2 ^ k) [a..<nat m - 1])"
proof (induction L ex post m a sl rule: retry_from.induct)
  case (1 L ex post m a sl)
  show ?case
  proof (cases "int a < m")
    case False
    then have "nat m - 1 \<le> a" "max a (nat m) = a" by auto
    with False show ?thesis by (subst retry_from.simps) (simp add: after_loop_returns)
  next
    case True
    with "1.prems" obtain e where e: "ex a = Inl e" "is_retryable (lower L (msg e))"
      by blast
    let ?sl = "if int a < m - 1 then sl @ [(2 ^ a) * 5] else sl"
    have prem': "\<forall>k. Suc a \<le> k \<and> int k < m \<longrightarrow> (\<exists>e. ex k = Inl e \<and> is_retryable (lower L (msg e)))"
      using "1.prems" by auto
    have ih: "retry_from L ex post m (Suc a) ?sl =
        (Inr (get_fallback_metadata L post), max (Suc a) (nat m),
         ?sl @ map (\<lambda>k. 5 * 2 ^ k) [Suc a..<nat m - 1])"
      using "1.IH" [OF True e(1) refl e(2) refl retry_notice_printed prem'] .
    have unfold: "retry_from L ex post m a sl = retry_from L ex post m (Suc a) ?sl"
      using True e by (subst retry_from.simps) (simp add: Let_def retry_notice_printed)
    have mx: "max (Suc a) (nat m) = max a (nat m)" using True by auto
    have lst: "?sl @ map (\<lambda>k. 5 * 2 ^ k) [Suc a..<nat m - 1]
        = sl @ map (\<lambda>k. 5 * 2 ^ k) [a..<nat m - 1]"
    proof (cases "int a < m - 1")
      case yes: True
      then have "a < nat m - 1" by auto
      then have "[a..<nat m - 1] = a # [Suc a..<nat m - 1]" by (simp add: upt_conv_Cons)
      with yes show ?thesis by simp
    next
      case no: False
      then have "nat m - 1 \<le> a" by auto
      with no show ?thesis by simp
    qed
    show ?thesis unfolding unfold ih mx lst ..
  qed
qed

lemma retryable_503: "is_retryable (lower L (py ''Error code: 503 - Service Unavailable''))"
  by (simp add: lower_def is_retryable_def py_def ascii_lower_def sublist_code)

lemma not_retryable_auth: "\<not> is_retryable (lower L (py ''Authentication Failed''))"
  by (simp add: lower_def is_retryable_def py_def ascii_lower_def sublist_code)

lemma not_retryable_surrogate: "\<not> is_retryable (lower (\<lambda>s. s) (py ''bad '' @ [55357]))"
  by (simp add: lower_def is_retryable_def py_def sublist_code)

lemma unprintable_surrogate: "\<not> printable (py ''bad '' @ [55357])"
  by (simp add: is_surrogate_def)

lemma surrogate_error_msg:
  "encode_error_msg (py ''Non-retryable error: '' @ py ''bad '' @ [55357])
     = [39] @ py ''utf-8'' @ [39] @ py '' codec can'' @ [39] @ py ''t encode character ''
       @ [39, 92] @ py ''ud83d'' @ [39] @ py '' in position 25: surrogates not allowed''"
  by (simp add: encode_error_msg_def py_def is_surrogate_def hex4_of_def hex_digit_def
      str_nat.simps Let_def)

text \<open>
  C1. The claim does not hold of the code. The handler of the controller prints the
  exception at line 115, outside the \<open>try\<close>: when the first attempt raises an error that
  is not retryable and whose message cannot be printed (it holds a surrogate code
  point), \<open>print\<close> raises \<open>UnicodeEncodeError\<close> and the controller raises it to its caller
  instead of returning the fallback metadata. When every message that the controller
  prints can be printed, the controller returns: what it returns is the value of an
  attempt or the fallback metadata of the post, and it is the fallback metadata
  whenever none of the attempts made has returned.
\<close>

theorem retry_raises_on_unprintable_error:
  "(0 < m \<and> ex 0 = Inl e \<and> \<not> is_retryable (lower L (msg e)) \<and> \<not> printable (msg e) \<longrightarrow>
      extract_metadata_with_retry L ex post m =
        (Inl (Exn UnicodeEncodeError (encode_error_msg (py ''Non-retryable error: '' @ msg e))),
         1, []))
   \<and> ((\<forall>k e'. int k < m \<and> ex k = Inl e' \<and> \<not> is_retryable (lower L (msg e'))
          \<longrightarrow> printable (msg e')) \<longrightarrow>
      (fst (extract_metadata_with_retry L ex post m) = Inr (get_fallback_metadata L post)
         \<or> (\<exists>k v. int k < m \<and> ex k = Inr v
               \<and> fst (extract_metadata_with_retry L ex post m) = Inr v))
      \<and> ((\<forall>k < fst (snd (extract_metadata_with_retry L ex post m)). isl (ex k)) \<longrightarrow>
           fst (extract_metadata_with_retry L ex post m) = Inr (get_fallback_metadata L post)))"
proof -
  have raise: "extract_metadata_with_retry L ex post m =
        (Inl (Exn UnicodeEncodeError (encode_error_msg (py ''Non-retryable error: '' @ msg e))),
         1, [])"
    if "0 < m \<and> ex 0 = Inl e \<and> \<not> is_retryable (lower L (msg e)) \<and> \<not> printable (msg e)"
    using that retry_from_fast_fail [of m ex e L post]
    by (simp add: extract_metadata_with_retry_def)
  have ret: "(fst (extract_metadata_with_retry L ex post m) = Inr (get_fallback_metadata L post)
         \<or> (\<exists>k v. int k < m \<and> ex k = Inr v
               \<and> fst (extract_metadata_with_retry L ex post m) = Inr v))
      \<and> ((\<forall>k < fst (snd (extract_metadata_with_retry L ex post m)). isl (ex k)) \<longrightarrow>
           fst (extract_metadata_with_retry L ex post m) = Inr (get_fallback_metadata L post))"
    if p: "\<forall>k e'. int k < m \<and> ex k = Inl e' \<and> \<not> is_retryable (lower L (msg e'))
      \<longrightarrow> printable (msg e')"
  proof -
    obtain r n sl' where R: "extract_metadata_with_retry L ex post m = (r, n, sl')"
      by (cases "extract_metadata_with_retry L ex post m") auto
    then have "retry_from L ex post m 0 [] = (r, n, sl')"
      by (simp add: extract_metadata_with_retry_def)
    from retry_from_cases [OF p this] R show ?thesis by simp
  qed
  from raise ret show ?thesis by blast
qed

theorem retry_raises_on_unprintable_error_witness:
  "extract_metadata_with_retry (\<lambda>s. s)
      (\<lambda>a. Inl (Exn CapabilityError (py ''bad '' @ [55357]))) (py ''hello'') 3
     = (Inl (Exn UnicodeEncodeError
          ([39] @ py ''utf-8'' @ [39] @ py '' codec can'' @ [39] @ py ''t encode character ''
           @ [39, 92] @ py ''ud83d'' @ [39] @ py '' in position 25: surrogates not allowed'')),
        1, [])
   \<and> fst (extract_metadata_with_retry (\<lambda>s. s)
          (\<lambda>a. Inl (Exn CapabilityError (py ''Authentication Failed''))) (py ''hello'') 3)
     = Inr (get_fallback_metadata (\<lambda>s. s) (py ''hello''))"
proof -
  have a: "extract_metadata_with_retry (\<lambda>s. s)
      (\<lambda>a. Inl (Exn CapabilityError (py ''bad '' @ [55357]))) (py ''hello'') 3
     = (Inl (Exn UnicodeEncodeError (encode_error_msg
          (py ''Non-retryable error: '' @ py ''bad '' @ [55357]))), 1, [])"
    using retry_raises_on_unprintable_error
      [of 3 "\<lambda>a. Inl (Exn CapabilityError (py ''bad '' @ [55357]))"
          "Exn CapabilityError (py ''bad '' @ [55357])" "\<lambda>s. s" "py ''hello''"]
      not_retryable_surrogate unprintable_surrogate
    by simp
  have b: "fst (extract_metadata_with_retry (\<lambda>s. s)
          (\<lambda>a. Inl (Exn CapabilityError (py ''Authentication Failed''))) (py ''hello'') 3)
     = Inr (get_fallback_metadata (\<lambda>s. s) (py ''hello''))"
    using retry_raises_on_unprintable_error
      [of 3 "\<lambda>a. Inl (Exn CapabilityError (py ''Authentication Failed''))"
          "Exn CapabilityError (py ''Authentication Failed'')" "\<lambda>s. s" "py ''hello''"]
    by simp
  from a b show ?thesis by (simp only: surrogate_error_msg)
qed

text \<open>
  C5. When every attempt raises an error whose lowercased message contains one of the
  five retryable keywords, the controller calls the extractor \<open>max_retries\<close> times,
  sleeps \<open>5 * 2^a\<close> seconds after attempt \<open>a\<close> for every attempt but the last, and returns
  the fallback metadata. When the first attempt raises an error whose message contains
  none of them, it makes this one attempt and does not sleep; it then returns the
  fallback metadata if the message can be printed, and otherwise raises the
  \<open>UnicodeEncodeError\<close> of the \<open>print\<close> of line 115, where the claim says that it returns
  the fallback metadata.
\<close>

theorem retry_backoff_and_fast_fail:
  "((\<forall>k. int k < m \<longrightarrow> (\<exists>e. ex k = Inl e \<and> is_retryable (lower L (msg e)))) \<longrightarrow>
      extract_metadata_with_retry L ex post m =
        (Inr (get_fallback_metadata L post), nat m, map (\<lambda>a. 5 * 2 ^ a) [0..<nat m - 1]))
   \<and> (0 < m \<and> ex 0 = Inl e0 \<and> \<not> is_retryable (lower L (msg e0)) \<and> printable (msg e0) \<longrightarrow>
      extract_metadata_with_retry L ex post m = (Inr (get_fallback_metadata L post), 1, []))
   \<and> (0 < m \<and> ex 0 = Inl e0 \<and> \<not> is_retryable (lower L (msg e0)) \<and> \<not> printable (msg e0) \<longrightarrow>
      (\<exists>e. extract_metadata_with_retry L ex post m = (Inl e, 1, [])
            \<and> kind e = UnicodeEncodeError))"
proof (intro conjI impI)
  assume "\<forall>k. int k < m \<longrightarrow> (\<exists>e. ex k = Inl e \<and> is_retryable (lower L (msg e)))"
  then have "\<forall>k. 0 \<le> k \<and> int k < m \<longrightarrow> (\<exists>e. ex k = Inl e \<and> is_retryable (lower L (msg e)))"
    by simp
  from retry_from_all_retryable [OF this, of post "[]"]
  show "extract_metadata_with_retry L ex post m =
        (Inr (get_fallback_metadata L post), nat m, map (\<lambda>a. 5 * 2 ^ a) [0..<nat m - 1])"
    by (simp add: extract_metadata_with_retry_def)
next
  assume "0 < m \<and> ex 0 = Inl e0 \<and> \<not> is_retryable (lower L (msg e0)) \<and> printable (msg e0)"
  then show "extract_metadata_with_retry L ex post m = (Inr (get_fallback_metadata L post), 1, [])"
    using retry_from_fast_fail [of m ex e0 L post]
    by (simp add: extract_metadata_with_retry_def)
next
  assume "0 < m \<and> ex 0 = Inl e0 \<and> \<not> is_retryable (lower L (msg e0)) \<and> \<not> printable (msg e0)"
  then show "\<exists>e. extract_metadata_with_retry L ex post m = (Inl e, 1, [])
            \<and> kind e = UnicodeEncodeError"
    using retry_from_fast_fail [of m ex e0 L post]
    by (simp add: extract_metadata_with_retry_def)
qed

theorem retry_backoff_and_fast_fail_witness:
  "extract_metadata_with_retry (\<lambda>s. s)
      (\<lambda>a. Inl (Exn CapabilityError (py ''Error code: 503 - Service Unavailable''))) (py ''hello'') 3
     = (Inr (get_fallback_metadata (\<lambda>s. s) (py ''hello'')), 3, [5, 10])
   \<and> extract_metadata_with_retry (\<lambda>s. s)
      (\<lambda>a. Inl (Exn CapabilityError (py ''Authentication Failed''))) (py ''hello'') 3
     = (Inr (get_fallback_metadata (\<lambda>s. s) (py ''hello'')), 1, [])
   \<and> (\<exists>e. extract_metadata_with_retry (\<lambda>s. s)
          (\<lambda>a. Inl (Exn CapabilityError (py ''bad '' @ [55357]))) (py ''hello'') 3
        = (Inl e, 1, []) \<and> kind e = UnicodeEncodeError)"
proof -
  have u: "[0..<2] = [0, Suc 0]" by (simp add: upt_conv_Cons)
  have a: "extract_metadata_with_retry (\<lambda>s. s)
      (\<lambda>a. Inl (Exn CapabilityError (py ''Error code: 503 - Service Unavailable''))) (py ''hello'') 3
     = (Inr (get_fallback_metadata (\<lambda>s. s) (py ''hello'')), 3, [5, 10])"
    using retry_backoff_and_fast_fail
      [of 3 "\<lambda>a. Inl (Exn CapabilityError (py ''Error code: 503 - Service Unavailable''))"
          "\<lambda>s. s" "py ''hello''"]
    by (simp add: retryable_503 u)
  have b: "extract_metadata_with_retry (\<lambda>s. s)
      (\<lambda>a. Inl (Exn CapabilityError (py ''Authentication Failed''))) (py ''hello'') 3
     = (Inr (get_fallback_metadata (\<lambda>s. s) (py ''hello'')), 1, [])"
    using retry_backoff_and_fast_fail
      [of 3 "\<lambda>a. Inl (Exn CapabilityError (py ''Authentication Failed''))"
          "\<lambda>s. s" "py ''hello''" "Exn CapabilityError (py ''Authentication Failed'')"]
    by (simp add: not_retryable_auth)
  have c: "\<exists>e. extract_metadata_with_retry (\<lambda>s. s)
          (\<lambda>a. Inl (Exn CapabilityError (py ''bad '' @ [55357]))) (py ''hello'') 3
        = (Inl e, 1, []) \<and> kind e = UnicodeEncodeError"
    using retry_backoff_and_fast_fail
      [of 3 "\<lambda>a. Inl (Exn CapabilityError (py ''bad '' @ [55357]))"
          "\<lambda>s. s" "py ''hello''" "Exn CapabilityError (py ''bad '' @ [55357])"]
      not_retryable_surrogate unprintable_surrogate
    by simp
  from a b c show ?thesis by simp
qed

section \<open>The schema on the model path\<close>

lemma german_answer_shape:
  "\<exists>body. german_answer = 123 # body @ [125] \<and> list_all no_brace body \<and> 96 \<notin> set body"
proof -
  have "german_answer = 123 # butlast (tl german_answer) @ [125]"
    by (simp add: german_answer_def py_def)
  moreover have "list_all no_brace (butlast (tl german_answer))"
    by (simp add: german_answer_def py_def no_brace_def)
  moreover have "96 \<notin> set (butlast (tl german_answer))"
    by (simp add: german_answer_def py_def)
  ultimately show ?thesis by blast
qed

lemma loads_german_answer:
  "json_loads 900 german_answer =
     Inr (JObj [(k_line_count, JInt 1), (k_language, JStr (py ''German'')), (k_tags, JArr [])])"
  by (simp add: json_loads_def german_answer_def py_def skip_ws_def json_ws_def
      match_number_def number_tail_def is_digit_def digits_value_def dict_merge_def
      k_line_count_def k_language_def k_tags_def Let_def)

text \<open>
  The claim C3 as it is stated fails on the model path: when the model answers with an
  object whose language is German, the retry controller returns that object.
\<close>

theorem model_path_schema_counterexample:
  "fst (extract_metadata_with_retry (\<lambda>s. s)
          (\<lambda>a. extract_metadata (json_loads 900) (\<lambda>p. Inr german_answer) (py ''Hallo Welt''))
          (py ''Hallo Welt'') 3)
     = Inr (JObj [(k_line_count, JInt 1), (k_language, JStr (py ''German'')), (k_tags, JArr [])])
   \<and> \<not> metadata_ok
         (JObj [(k_line_count, JInt 1), (k_language, JStr (py ''German'')), (k_tags, JArr [])])"
proof -
  from german_answer_shape obtain body where b: "german_answer = 123 # body @ [125]"
    "list_all no_brace body" "96 \<notin> set body" by blast
  have s: "strip german_answer = german_answer"
    unfolding b(1) by (rule strip_flat_object)
  have x: "extract_json_from_text german_answer = Some german_answer"
    unfolding b(1) by (rule extract_flat_object [OF b(2,3)])
  have e: "extract_metadata (json_loads 900) (\<lambda>p. Inr german_answer) (py ''Hallo Welt'')
      = Inr (JObj [(k_line_count, JInt 1), (k_language, JStr (py ''German'')), (k_tags, JArr [])])"
    by (simp add: extract_metadata_cases s x loads_german_answer)
  have r: "fst (extract_metadata_with_retry (\<lambda>s. s)
          (\<lambda>a. extract_metadata (json_loads 900) (\<lambda>p. Inr german_answer) (py ''Hallo Welt''))
          (py ''Hallo Welt'') 3)
     = Inr (JObj [(k_line_count, JInt 1), (k_language, JStr (py ''German'')), (k_tags, JArr [])])"
    by (simp add: extract_metadata_with_retry_def retry_from.simps e)
  have n: "\<not> metadata_ok
         (JObj [(k_line_count, JInt 1), (k_language, JStr (py ''German'')), (k_tags, JArr [])])"
    by (simp add: metadata_ok_def meta_get_def keys_distinct English_def French_def py_def)
  from r n show ?thesis by simp
qed

section \<open>Properties of the Batch Processor\<close>

lemma clean_unicode_returns: "\<exists>c. clean_unicode S v = Inr c"
  by (cases v) (simp_all add: clean_unicode_def clean_unicode_str_eq)

lemma fallback_empty_text:
  "get_fallback_metadata L [] =
     JObj [(k_line_count, JInt 1), (k_language, JStr English), (k_tags, JArr [])]"
  by (simp add: get_fallback_metadata_def lower_def french_count_def french_words_def py_def
      linkedin_keywords_def)

lemma degenerate_fallback_eq:
  "degenerate_fallback L t =
     [(k_line_count, JInt (int (length (split_on 10 t)))), (k_language, JStr English),
      (k_tags, JArr [])]"
  by (simp add: degenerate_fallback_def get_fallback_metadata_def Let_def dict_merge_def
      keys_distinct)

lemma except_record_dict:
  "map_of d k_text = None \<or> map_of d k_text = Some (JStr t) \<Longrightarrow>
   except_record (JObj d) =
     Inr (JObj (dict_merge d (degenerate_fallback L
            (case map_of d k_text of None \<Rightarrow> [] | Some v \<Rightarrow> t))))"
  by (auto simp: except_record_def degenerate_fallback_eq)

lemma merged_tags_empty:
  "meta_get (JObj (dict_merge d (degenerate_fallback L t))) k_tags = Some (JArr [])"
  by (simp add: meta_get_def degenerate_fallback_eq dict_merge_def update_conv')

lemma printable_k_text [simp]: "printable k_text"
  by (simp add: k_text_def)

lemma printable_type_name [simp]: "printable (type_name v)"
  by (cases v) (simp_all add: type_name_def)

lemma printable_subscript_error [simp]: "printable (msg (subscript_error post))"
  by (cases post) (simp_all add: subscript_error_def is_surrogate_def)

lemma printable_not_a_mapping [simp]: "printable (msg (not_a_mapping v))"
  by (simp add: not_a_mapping_def is_surrogate_def)

lemma handle_item_printable:
  "printable (msg e) \<Longrightarrow>
   handle_item i e post st appended =
     (case except_record post of
        Inl e' \<Rightarrow> Inl e'
      | Inr post_metadata \<Rightarrow> Inr (appended @ [post_metadata], st))"
  by (simp add: handle_item_def py_print_printable)

lemma progress_notice_printed:
  "py_print (py ''Processed post '' @ str_nat a @ py ''/'' @ str_nat n) = Inr ()"
  by (simp add: py_print_printable)

lemma process_item_no_text:
  "map_of d k_text = None \<Longrightarrow>
   process_item L S D llm i n st (JObj d)
     = Inr ([JObj (dict_merge d (degenerate_fallback L []))], st)"
  using except_record_dict [of d "[]" L]
  by (simp add: process_item_def handle_item_printable)



lemma process_item_dict:
  "\<exists>sl. process_item L S D llm i n st (JObj d)
     = Inr ([spec_enriched_post L S D llm (fst st) (JObj d)],
            (fst st + spec_calls L S D llm (fst st) (JObj d), sl))"
proof (cases "map_of d k_text")
  case None
  then have "process_item L S D llm i n st (JObj d)
      = Inr ([spec_enriched_post L S D llm (fst st) (JObj d)],
             (fst st + spec_calls L S D llm (fst st) (JObj d), snd st))"
    by (simp add: process_item_no_text spec_enriched_post_def spec_calls_def)
  then show ?thesis by blast
next
  case (Some v)
  obtain c where c: "clean_unicode S v = Inr c"
    using clean_unicode_returns by blast
  let ?d = "AList.update k_text (JStr c) d"
  obtain r k sl where r: "spec_controller L D llm (fst st) c = (r, k, sl)"
    by (cases "spec_controller L D llm (fst st) c") auto
  then have r': "extract_metadata_with_retry L
      (\<lambda>a. extract_metadata D (llm (fst st + a)) c) c 3 = (r, k, sl)"
    by (simp add: spec_controller_def)
  have h: "except_record (JObj ?d) = Inr (JObj (dict_merge ?d (degenerate_fallback L c)))"
    using except_record_dict [of ?d c L] by (simp add: update_conv')
  let ?st = "(fst st + k, snd st @ sl)"
  have item: "process_item L S D llm i n st (JObj d) =
      Inr ([case r of Inr (JObj m) \<Rightarrow> JObj (dict_merge ?d m)
            | _ \<Rightarrow> JObj (dict_merge ?d (degenerate_fallback L c))], ?st)"
  proof (cases r)
    case (Inl e)
    with r' have "retry_from L (\<lambda>a. extract_metadata D (llm (fst st + a)) c) c 3 0 []
        = (Inl e, k, sl)"
      by (simp add: extract_metadata_with_retry_def)
    from retry_from_raises [OF this] have "printable (msg e)" by simp
    with Some c r' Inl h show ?thesis
      by (simp add: process_item_def handle_item_printable)
  next
    case (Inr metadata)
    show ?thesis
    proof (cases "is_dict metadata")
      case True
      then obtain m where "metadata = JObj m" by (cases metadata) (auto simp: is_dict_def)
      with Some c r' Inr show ?thesis
        by (simp add: process_item_def progress_notice_printed Let_def)
    next
      case False
      with Some c r' Inr h show ?thesis
        by (cases metadata) (simp_all add: process_item_def handle_item_printable is_dict_def)
    qed
  qed
  have rec: "spec_enriched_post L S D llm (fst st) (JObj d)
      = (case r of Inr (JObj m) \<Rightarrow> JObj (dict_merge ?d m)
         | _ \<Rightarrow> JObj (dict_merge ?d (degenerate_fallback L c)))"
    using Some c r by (simp add: spec_enriched_post_def)
  have calls: "spec_calls L S D llm (fst st) (JObj d) = k"
    using Some c r by (simp add: spec_calls_def)
  from item rec calls show ?thesis by simp
qed

lemma process_loop_dicts:
  "list_all is_dict posts \<Longrightarrow>
   \<exists>sl. process_loop L S D llm n i st posts acc
     = Inr (acc @ spec_records L S D llm (fst st) posts,
            (calls_after L S D llm (fst st) posts, sl))"
proof (induction posts arbitrary: i st acc)
  case Nil
  show ?case by (cases st) simp
next
  case (Cons p ps)
  then obtain d where d: "p = JObj d" by (cases p) (auto simp: is_dict_def)
  from process_item_dict [of L S D llm i n st d] d
  obtain sl1 where item: "process_item L S D llm i n st p
      = Inr ([spec_enriched_post L S D llm (fst st) p],
             (fst st + spec_calls L S D llm (fst st) p, sl1))" by auto
  let ?st1 = "(fst st + spec_calls L S D llm (fst st) p, sl1)"
  from Cons have "list_all is_dict ps" by simp
  from Cons.IH [OF this, of "Suc i" ?st1 "acc @ [spec_enriched_post L S D llm (fst st) p]"]
  obtain sl where "process_loop L S D llm n (Suc i) ?st1 ps
        (acc @ [spec_enriched_post L S D llm (fst st) p])
      = Inr ((acc @ [spec_enriched_post L S D llm (fst st) p])
               @ spec_records L S D llm (fst ?st1) ps,
             (calls_after L S D llm (fst ?st1) ps, sl))" by blast
  with item have "process_loop L S D llm n i st (p # ps) acc
      = Inr (acc @ spec_records L S D llm (fst st) (p # ps),
             (calls_after L S D llm (fst st) (p # ps), sl))"
    by simp
  then show ?case by blast
qed

lemma spec_records_length: "length (spec_records L S D llm calls posts) = length posts"
  by (induction posts arbitrary: calls) simp_all

lemma spec_records_nth:
  "i < length posts \<Longrightarrow>
   spec_records L S D llm calls posts ! i
     = spec_enriched_post L S D llm (calls_after L S D llm calls (take i posts)) (posts ! i)"
proof (induction posts arbitrary: calls i)
  case Nil
  then show ?case by simp
next
  case (Cons p ps)
  then show ?case by (cases i) simp_all
qed


lemma list3_nth: "length xs = 3 \<Longrightarrow> xs = [xs ! 0, xs ! 1, xs ! 2]"
  by (auto simp: list_eq_iff_nth_eq less_Suc_eq numeral_3_eq_3 numeral_2_eq_2)

lemma clean_unicode_ascii: "clean_unicode S (JStr (py s)) = Inr (py s)"
proof -
  have "list_all (\<lambda>c. \<not> is_surrogate c) (py s)"
    using printable_py [of s] by (simp add: printable_def)
  then show ?thesis by (simp add: clean_unicode_def clean_unicode_str_eq)
qed

lemma extract_german_answer:
  "extract_metadata (json_loads 900) (\<lambda>p. Inr german_answer) post
     = Inr (JObj [(k_line_count, JInt 1), (k_language, JStr (py ''German'')), (k_tags, JArr [])])"
proof -
  from german_answer_shape obtain body where b: "german_answer = 123 # body @ [125]"
    "list_all no_brace body" "96 \<notin> set body" by blast
  have s: "strip german_answer = german_answer"
    unfolding b(1) by (rule strip_flat_object)
  have x: "extract_json_from_text german_answer = Some german_answer"
    unfolding b(1) by (rule extract_flat_object [OF b(2,3)])
  show ?thesis by (simp add: extract_metadata_cases s x loads_german_answer)
qed

lemma split_on_hello: "split_on 10 (py ''hello'') = [py ''hello'']"
  by (simp add: py_def)

lemma keys_of_posts:
  "k_text \<noteq> py ''id''" "k_line_count \<noteq> py ''id''" "k_language \<noteq> py ''id''"
  "k_tags \<noteq> py ''id''" "k_text \<noteq> k_line_count" "k_text \<noteq> k_language" "k_text \<noteq> k_tags"
  by (simp_all add: k_text_def k_line_count_def k_language_def k_tags_def py_def)


end
